theory Spec2Isabelle
  imports
    Complex_Main
    "HOL-Library.Char_ord"
    "HOL-Library.List_Lexorder"
    "HOL-Library.Log_Nat"
    "HOL-Library.Multiset"
begin

section \<open>The JavaScript values and library calls the components use\<close>

text \<open>
  Numbers are JavaScript doubles in the source. They are modelled as rationals; sums and
  differences are exact, and the quotient and product of the percentage computation are
  rounded to the nearest double, as \<open>round64\<close> below does. \<open>NaN\<close> appears only
  where a library call of the source produces it (the time value of an unparseable
  date). Strings are lists of 8-bit characters; \<open>toLowerCase\<close> folds the ASCII letters,
  and the relational operators on strings compare character codes lexicographically.
\<close>





definition lowerChar :: "char \<Rightarrow> char" where
  "lowerChar c =
     (if CHR ''A'' \<le> c \<and> c \<le> CHR ''Z'' then char_of (of_char c + (32::nat)) else c)"

definition toLowerCase :: "string \<Rightarrow> string" where
  "toLowerCase s = map lowerChar s"

fun startsWith :: "string \<Rightarrow> string \<Rightarrow> bool" where
  "startsWith s [] = True"
| "startsWith [] (c # cs) = False"
| "startsWith (d # ds) (c # cs) = (d = c \<and> startsWith ds cs)"

text \<open>\<open>includesStr s t\<close> is \<open>s.includes(t)\<close>: \<open>t\<close> occurs in \<open>s\<close> as a contiguous run.\<close>

fun includesStr :: "string \<Rightarrow> string \<Rightarrow> bool" where
  "includesStr [] t = (t = [])"
| "includesStr (d # ds) t = (startsWith (d # ds) t \<or> includesStr ds t)"

definition endsWith :: "string \<Rightarrow> string \<Rightarrow> bool" where
  "endsWith s t = startsWith (rev s) (rev t)"

text \<open>Decimal rendering of integers, as template literals and \<open>String(n)\<close> produce it.\<close>

definition digitChar :: "nat \<Rightarrow> char" where
  "digitChar d = char_of (48 + d)"

fun showNat :: "nat \<Rightarrow> string" where
  "showNat n = (if n < 10 then [digitChar n] else showNat (n div 10) @ [digitChar (n mod 10)])"

declare showNat.simps [simp del]

definition showInt :: "int \<Rightarrow> string" where
  "showInt i = (if i < 0 then CHR ''-'' # showNat (nat (- i)) else showNat (nat i))"

definition padStart2 :: "string \<Rightarrow> string" where
  "padStart2 s = replicate (2 - length s) CHR ''0'' @ s"

text \<open>
  \<open>Array.prototype.slice(start, end)\<close>: a negative index counts from the end, both
  indices are clamped to the array, and an empty range gives the empty array.
\<close>

definition sliceIndex :: "nat \<Rightarrow> int \<Rightarrow> nat" where
  "sliceIndex len i = (if i < 0 then nat (max (int len + i) 0) else min (nat i) len)"

definition slice :: "'a list \<Rightarrow> int \<Rightarrow> int \<Rightarrow> 'a list" where
  "slice xs start endIdx =
     (let k = sliceIndex (length xs) start; fin = sliceIndex (length xs) endIdx
      in take (fin - k) (drop k xs))"

text \<open>
  \<open>Array.prototype.sort(cmp)\<close> is stable; the comparator returns a number, and an
  element moves behind another only when the comparator is positive on the pair. For a
  consistent comparator the result is the one of this stable insertion sort.
\<close>

type_synonym 'a comparator = "'a \<Rightarrow> 'a \<Rightarrow> rat"

fun sortInsert :: "'a comparator \<Rightarrow> 'a \<Rightarrow> 'a list \<Rightarrow> 'a list" where
  "sortInsert cmp x [] = [x]"
| "sortInsert cmp x (y # ys) =
     (if 0 < cmp x y then y # sortInsert cmp x ys else x # y # ys)"

definition arraySort :: "'a comparator \<Rightarrow> 'a list \<Rightarrow> 'a list" where
  "arraySort cmp xs = foldr (sortInsert cmp) xs []"

text \<open>
  \<open>sort()\<close> without a comparator orders the elements by their string conversions,
  compared by character code.
\<close>

definition defaultCompare :: "('a \<Rightarrow> string) \<Rightarrow> 'a comparator" where
  "defaultCompare toStr x y =
     (if toStr x < toStr y then - 1 else if toStr y < toStr x then 1 else 0)"

text \<open>
  A \<open>Date\<close> object, as far as the components read it: invalid, or a time value with the
  local-time year and month index (0 to 11) its getters return. The parser
  \<open>new Date(string)\<close>, the conversion of a number to a string and the locale formatting
  of a month label belong to the runtime and are taken as parameters.
\<close>

datatype jsdate = InvalidDate | ValidDate int int nat

record runtime =
  newDate :: "string \<Rightarrow> jsdate"
  numberToString :: "rat \<Rightarrow> string"
  toLocaleMonth :: "string \<Rightarrow> string"

text \<open>A map with string keys in insertion order: \<open>set\<close> on a present key keeps its place.\<close>

fun mapGet :: "(string \<times> 'v) list \<Rightarrow> string \<Rightarrow> 'v option" where
  "mapGet [] k = None"
| "mapGet ((k', v) # m) k = (if k' = k then Some v else mapGet m k)"

fun mapSet :: "(string \<times> 'v) list \<Rightarrow> string \<Rightarrow> 'v \<Rightarrow> (string \<times> 'v) list" where
  "mapSet [] k v = [(k, v)]"
| "mapSet ((k', v') # m) k v = (if k' = k then (k, v) # m else (k', v') # mapSet m k v)"

section \<open>Data model (lib/types.ts)\<close>

datatype txn_type = Debit | Credit

fun typeString :: "txn_type \<Rightarrow> string" where
  "typeString Debit = ''debit''"
| "typeString Credit = ''credit''"

record Transaction =
  txn_id :: string
  date :: string
  description :: string
  amount :: rat
  category :: "string option"
  type :: txn_type



record TimelineData =
  tl_date :: string
  tl_amount :: rat
  tl_cumulative :: rat

section \<open>Transaction table: filter, sort, paginate\<close>

datatype SortField = SortDate | SortDescription | SortAmount | SortCategory

datatype SortOrder = Asc | Desc

definition matchesSearch :: "string \<Rightarrow> Transaction \<Rightarrow> bool" where
  "matchesSearch searchTerm t =
     (searchTerm = [] \<or>
      includesStr (toLowerCase (description t)) (toLowerCase searchTerm) \<or>
      (case category t of
         None \<Rightarrow> False
       | Some c \<Rightarrow> includesStr (toLowerCase c) (toLowerCase searchTerm)))"

definition matchesCategory :: "string \<Rightarrow> Transaction \<Rightarrow> bool" where
  "matchesCategory categoryFilter t = (categoryFilter = [] \<or> category t = Some categoryFilter)"

definition matchesType :: "string \<Rightarrow> Transaction \<Rightarrow> bool" where
  "matchesType typeFilter t = (typeFilter = [] \<or> typeString (type t) = typeFilter)"

definition filtered :: "Transaction list \<Rightarrow> string \<Rightarrow> string \<Rightarrow> string \<Rightarrow> Transaction list" where
  "filtered transactions searchTerm categoryFilter typeFilter =
     filter (\<lambda>t. matchesSearch searchTerm t \<and> matchesCategory categoryFilter t \<and>
                 matchesType typeFilter t) transactions"

text \<open>
  The values \<open>aVal\<close> and \<open>bVal\<close> of the comparator after its conversions: the time value
  of the date (\<open>NaN\<close> for an invalid date), the absolute amount, or the lower-cased
  string, where a missing category has become the empty string.
\<close>

datatype sortval = VNum rat | VNaN | VStr string

definition sortValue :: "runtime \<Rightarrow> SortField \<Rightarrow> Transaction \<Rightarrow> sortval" where
  "sortValue rt sortField t =
     (case sortField of
        SortDate \<Rightarrow> (case newDate rt (date t) of
                       InvalidDate \<Rightarrow> VNaN
                     | ValidDate ms y m \<Rightarrow> VNum (of_int ms))
      | SortAmount \<Rightarrow> VNum \<bar>amount t\<bar>
      | SortDescription \<Rightarrow> VStr (toLowerCase (description t))
      | SortCategory \<Rightarrow> VStr (toLowerCase (case category t of None \<Rightarrow> [] | Some c \<Rightarrow> c)))"

fun jsLess :: "sortval \<Rightarrow> sortval \<Rightarrow> bool" where
  "jsLess (VNum a) (VNum b) = (a < b)"
| "jsLess (VStr a) (VStr b) = (a < b)"
| "jsLess a b = False"

definition compareRows :: "runtime \<Rightarrow> SortField \<Rightarrow> SortOrder \<Rightarrow> Transaction comparator" where
  "compareRows rt sortField sortOrder a b =
     (let aVal = sortValue rt sortField a; bVal = sortValue rt sortField b
      in if jsLess aVal bVal then (if sortOrder = Asc then - 1 else 1)
         else if jsLess bVal aVal then (if sortOrder = Asc then 1 else - 1)
         else 0)"

definition filteredAndSorted ::
  "runtime \<Rightarrow> Transaction list \<Rightarrow> string \<Rightarrow> string \<Rightarrow> string \<Rightarrow> SortField \<Rightarrow> SortOrder
     \<Rightarrow> Transaction list" where
  "filteredAndSorted rt transactions searchTerm categoryFilter typeFilter sortField sortOrder =
     arraySort (compareRows rt sortField sortOrder)
       (filtered transactions searchTerm categoryFilter typeFilter)"

text \<open>
  The options of the category select (the distinct non-empty categories, sorted) and the
  label a row shows in its category cell.
\<close>

fun distinctValues :: "string list \<Rightarrow> string list" where
  "distinctValues [] = []"
| "distinctValues (x # xs) = x # distinctValues (filter (\<lambda>y. y \<noteq> x) xs)"

definition categories :: "Transaction list \<Rightarrow> string list" where
  "categories transactions =
     arraySort (defaultCompare (\<lambda>c. c))
       (distinctValues
          (concat (map (\<lambda>t. case category t of
                              None \<Rightarrow> []
                            | Some c \<Rightarrow> if c = [] then [] else [c]) transactions)))"

definition categoryCell :: "Transaction \<Rightarrow> string" where
  "categoryCell t =
     (case category t of
        None \<Rightarrow> ''Uncategorized''
      | Some c \<Rightarrow> if c = [] then ''Uncategorized'' else c)"

definition itemsPerPage :: nat where
  "itemsPerPage = 50"

definition totalPages :: "'a list \<Rightarrow> int" where
  "totalPages rows = \<lceil>rat_of_nat (length rows) / rat_of_nat itemsPerPage\<rceil>"

definition paginatedTransactions :: "'a list \<Rightarrow> int \<Rightarrow> 'a list" where
  "paginatedTransactions rows currentPage =
     slice rows ((currentPage - 1) * int itemsPerPage) (currentPage * int itemsPerPage)"

text \<open>
  The state of the table component and the events that change it. The pager is rendered
  only when there is more than one page, and a disabled button takes no click.
\<close>

record TableState =
  searchTerm :: string
  categoryFilter :: string
  typeFilter :: string
  sortField :: SortField
  sortOrder :: SortOrder
  currentPage :: int

datatype TableEvent =
    SetSearchTerm string
  | SetCategoryFilter string
  | SetTypeFilter string
  | HandleSort SortField
  | ClickPrevious
  | ClickNext

definition initialTable :: TableState where
  "initialTable =
     \<lparr>searchTerm = [], categoryFilter = [], typeFilter = [], sortField = SortDate,
      sortOrder = Desc, currentPage = 1\<rparr>"

definition tableRows :: "runtime \<Rightarrow> Transaction list \<Rightarrow> TableState \<Rightarrow> Transaction list" where
  "tableRows rt transactions st =
     filteredAndSorted rt transactions (searchTerm st) (categoryFilter st) (typeFilter st)
       (sortField st) (sortOrder st)"

definition visibleRows :: "runtime \<Rightarrow> Transaction list \<Rightarrow> TableState \<Rightarrow> Transaction list" where
  "visibleRows rt transactions st =
     paginatedTransactions (tableRows rt transactions st) (currentPage st)"

fun tableStep :: "runtime \<Rightarrow> Transaction list \<Rightarrow> TableState \<Rightarrow> TableEvent \<Rightarrow> TableState" where
  "tableStep rt transactions st (SetSearchTerm v) = st\<lparr>searchTerm := v\<rparr>"
| "tableStep rt transactions st (SetCategoryFilter v) = st\<lparr>categoryFilter := v\<rparr>"
| "tableStep rt transactions st (SetTypeFilter v) = st\<lparr>typeFilter := v\<rparr>"
| "tableStep rt transactions st (HandleSort field) =
     (if sortField st = field
      then st\<lparr>sortOrder := (if sortOrder st = Asc then Desc else Asc)\<rparr>
      else st\<lparr>sortField := field, sortOrder := Asc\<rparr>)"
| "tableStep rt transactions st ClickPrevious =
     (let pages = totalPages (tableRows rt transactions st)
      in if 1 < pages \<and> currentPage st \<noteq> 1
         then st\<lparr>currentPage := max 1 (currentPage st - 1)\<rparr> else st)"
| "tableStep rt transactions st ClickNext =
     (let pages = totalPages (tableRows rt transactions st)
      in if 1 < pages \<and> currentPage st \<noteq> pages
         then st\<lparr>currentPage := min pages (currentPage st + 1)\<rparr> else st)"

definition tableRun :: "runtime \<Rightarrow> Transaction list \<Rightarrow> TableEvent list \<Rightarrow> TableState" where
  "tableRun rt transactions events = foldl (tableStep rt transactions) initialTable events"

section \<open>Analytics dashboard: category and timeline aggregation\<close>

definition categoryLabel :: "Transaction \<Rightarrow> string" where
  "categoryLabel t =
     (case category t of
        None \<Rightarrow> ''Uncategorized''
      | Some c \<Rightarrow> if c = [] then ''Uncategorized'' else c)"

definition categoryStep ::
  "(string \<times> rat \<times> nat) list \<Rightarrow> Transaction \<Rightarrow> (string \<times> rat \<times> nat) list" where
  "categoryStep m t =
     (let cat = categoryLabel t;
          existing = (case mapGet m cat of None \<Rightarrow> (0, 0) | Some e \<Rightarrow> e)
      in mapSet m cat (fst existing + \<bar>amount t\<bar>, snd existing + 1))"

definition categoryMap :: "Transaction list \<Rightarrow> (string \<times> rat \<times> nat) list" where
  "categoryMap transactions = foldl categoryStep [] (filter (\<lambda>t. type t = Debit) transactions)"



definition monthKey :: "runtime \<Rightarrow> Transaction \<Rightarrow> string" where
  "monthKey rt t =
     (case newDate rt (date t) of
        InvalidDate \<Rightarrow> ''NaN-NaN''
      | ValidDate ms y m \<Rightarrow> showInt y @ ''-'' @ padStart2 (showNat (m + 1)))"

definition monthlyStep :: "runtime \<Rightarrow> (string \<times> rat) list \<Rightarrow> Transaction \<Rightarrow> (string \<times> rat) list" where
  "monthlyStep rt m t =
     (let k = monthKey rt t;
          existing = (case mapGet m k of None \<Rightarrow> 0 | Some v \<Rightarrow> v)
      in mapSet m k (existing + amount t))"

definition monthlyMap :: "runtime \<Rightarrow> Transaction list \<Rightarrow> (string \<times> rat) list" where
  "monthlyMap rt transactions = foldl (monthlyStep rt) [] transactions"

text \<open>The string an entry \<open>[key, amount]\<close> is sorted by: its elements joined by a comma.\<close>

definition entryString :: "runtime \<Rightarrow> string \<times> rat \<Rightarrow> string" where
  "entryString rt e = fst e @ '','' @ numberToString rt (snd e)"

definition sortedEntries :: "runtime \<Rightarrow> Transaction list \<Rightarrow> (string \<times> rat) list" where
  "sortedEntries rt transactions =
     arraySort (defaultCompare (entryString rt)) (monthlyMap rt transactions)"

fun cumulate :: "runtime \<Rightarrow> rat \<Rightarrow> (string \<times> rat) list \<Rightarrow> TimelineData list" where
  "cumulate rt c [] = []"
| "cumulate rt c (e # es) =
     \<lparr>tl_date = toLocaleMonth rt (fst e @ ''-01''), tl_amount = snd e,
      tl_cumulative = c + snd e\<rparr> # cumulate rt (c + snd e) es"

definition timelineData :: "runtime \<Rightarrow> Transaction list \<Rightarrow> TimelineData list" where
  "timelineData rt transactions = cumulate rt 0 (sortedEntries rt transactions)"

section \<open>API client (lib/api.ts)\<close>

datatype json =
    JNull | JBool bool | JNum rat | JStr string | JArr "json list" | JObj "(string \<times> json) list"

text \<open>
  A response, as far as \<open>handleResponse\<close> reads it: \<open>jsonBody\<close> is what \<open>response.json()\<close>
  resolves to (\<open>None\<close> when it rejects), \<open>textBody\<close> what \<open>response.text()\<close> resolves to,
  \<open>contentType\<close> the header (\<open>None\<close> when absent). A parsed object lists each key once.
\<close>

record Response =
  status :: nat
  statusText :: string
  contentType :: "string option"
  jsonBody :: "json option"
  textBody :: string

definition ok :: "Response \<Rightarrow> bool" where
  "ok r = (200 \<le> status r \<and> status r \<le> 299)"

text \<open>
  Reading the property \<open>message\<close> or \<open>detail\<close> of a parsed body: \<open>null\<close> throws
  (\<open>None\<close>), an object gives the stored value, everything else gives \<open>undefined\<close>.
\<close>

datatype jsvalue = Undefined | Defined json

fun getProp :: "json \<Rightarrow> string \<Rightarrow> jsvalue option" where
  "getProp JNull k = None"
| "getProp (JObj kvs) k = Some (case mapGet kvs k of None \<Rightarrow> Undefined | Some v \<Rightarrow> Defined v)"
| "getProp j k = Some Undefined"

fun truthy :: "jsvalue \<Rightarrow> bool" where
  "truthy Undefined = False"
| "truthy (Defined JNull) = False"
| "truthy (Defined (JBool b)) = b"
| "truthy (Defined (JNum n)) = (n \<noteq> 0)"
| "truthy (Defined (JStr s)) = (s \<noteq> [])"
| "truthy (Defined j) = True"

text \<open>
  \<open>ApiError status message\<close> holds the two arguments of the constructor. What a 2xx
  response can end in besides a value is the rejection of \<open>response.json()\<close>.
\<close>

datatype ApiFailure = ApiError nat jsvalue | JsonRejected

datatype ApiValue = JsonValue json | TextValue string

definition statusFallback :: "Response \<Rightarrow> jsvalue" where
  "statusFallback r = Defined (JStr (''HTTP '' @ showNat (status r)))"

definition errorMessage :: "Response \<Rightarrow> jsvalue" where
  "errorMessage r =
     (case (case jsonBody r of
              None \<Rightarrow> None
            | Some errorData \<Rightarrow>
                (case getProp errorData ''message'' of
                   None \<Rightarrow> None
                 | Some m \<Rightarrow>
                     if truthy m then Some m
                     else (case getProp errorData ''detail'' of
                             None \<Rightarrow> None
                           | Some d \<Rightarrow> Some (if truthy d then d else statusFallback r)))) of
        Some msg \<Rightarrow> msg
      | None \<Rightarrow> if statusText r \<noteq> [] then Defined (JStr (statusText r)) else statusFallback r)"

definition indicatesJson :: "string option \<Rightarrow> bool" where
  "indicatesJson header =
     (case header of
        None \<Rightarrow> False
      | Some ct \<Rightarrow> ct \<noteq> [] \<and> includesStr ct ''application/json'')"

definition handleResponse :: "Response \<Rightarrow> ApiFailure + ApiValue" where
  "handleResponse r =
     (if \<not> ok r then Inl (ApiError (status r) (errorMessage r))
      else if indicatesJson (contentType r)
      then (case jsonBody r of None \<Rightarrow> Inl JsonRejected | Some j \<Rightarrow> Inr (JsonValue j))
      else Inr (TextValue (textBody r)))"

section \<open>Upload zone\<close>

record File =
  file_name :: string
  file_type :: string

text \<open>
  The component state, with the list of files posted to the upload endpoint so far
  (\<open>requests\<close>) as the record of its network calls.
\<close>

record UploadState =
  isDragOver :: bool
  curFile :: "File option"
  isUploading :: bool
  error :: "string option"
  requests :: "File list"

definition isCsv :: "File \<Rightarrow> bool" where
  "isCsv f = (file_type f = ''text/csv'' \<or> endsWith (toLowerCase (file_name f)) ''.csv'')"

definition initialUpload :: UploadState where
  "initialUpload =
     \<lparr>isDragOver = False, curFile = None, isUploading = False, error = None, requests = []\<rparr>"

definition handleDrop :: "UploadState \<Rightarrow> File list \<Rightarrow> UploadState" where
  "handleDrop st files =
     (case find isCsv files of
        Some csvFile \<Rightarrow> st\<lparr>isDragOver := False, curFile := Some csvFile, error := None\<rparr>
      | None \<Rightarrow> st\<lparr>isDragOver := False, error := Some ''Please upload a valid CSV file''\<rparr>)"

definition handleFileSelect :: "UploadState \<Rightarrow> File option \<Rightarrow> UploadState" where
  "handleFileSelect st selected =
     (case selected of
        None \<Rightarrow> st
      | Some selectedFile \<Rightarrow>
          if isCsv selectedFile then st\<lparr>curFile := Some selectedFile, error := None\<rparr>
          else st\<lparr>error := Some ''Please upload a valid CSV file''\<rparr>)"

text \<open>
  \<open>handleUpload\<close> in two steps: up to the \<open>fetch\<close> call, and the settling of the request.
  Every path after the \<open>fetch\<close> ends either in the success branch (the file is cleared)
  or in \<open>setError\<close> with some message, and then clears \<open>isUploading\<close>.
\<close>

datatype UploadOutcome = UploadSucceeded | UploadFailed string

definition handleUpload :: "UploadState \<Rightarrow> UploadState" where
  "handleUpload st =
     (case curFile st of
        None \<Rightarrow> st
      | Some f \<Rightarrow> st\<lparr>isUploading := True, error := None, requests := requests st @ [f]\<rparr>)"

fun uploadSettled :: "UploadState \<Rightarrow> UploadOutcome \<Rightarrow> UploadState" where
  "uploadSettled st UploadSucceeded = st\<lparr>curFile := None, isUploading := False\<rparr>"
| "uploadSettled st (UploadFailed msg) = st\<lparr>error := Some msg, isUploading := False\<rparr>"

definition removeFile :: "UploadState \<Rightarrow> UploadState" where
  "removeFile st = st\<lparr>curFile := None, error := None\<rparr>"

datatype UploadEvent =
    DragOver
  | DragLeave
  | Drop "File list"
  | FileSelect "File option"
  | ClickUpload
  | Settled UploadOutcome
  | ClickRemove

text \<open>The upload button exists only while a file is held and is disabled while uploading.\<close>

fun uploadStep :: "UploadState \<Rightarrow> UploadEvent \<Rightarrow> UploadState" where
  "uploadStep st DragOver = st\<lparr>isDragOver := True\<rparr>"
| "uploadStep st DragLeave = st\<lparr>isDragOver := False\<rparr>"
| "uploadStep st (Drop files) = handleDrop st files"
| "uploadStep st (FileSelect selected) = handleFileSelect st selected"
| "uploadStep st ClickUpload = (if isUploading st then st else handleUpload st)"
| "uploadStep st (Settled outcome) = (if isUploading st then uploadSettled st outcome else st)"
| "uploadStep st ClickRemove = (if curFile st = None then st else removeFile st)"

definition uploadRun :: "UploadEvent list \<Rightarrow> UploadState" where
  "uploadRun events = foldl uploadStep initialUpload events"

section \<open>Sample data\<close>

text \<open>The four transactions of the table component's tests, used in the scenarios.\<close>

definition groceryStore :: Transaction where
  "groceryStore =
     \<lparr>txn_id = ''1'', date = ''2024-01-15'', description = ''Grocery Store'',
      amount = - (171 / 2), category = Some ''Food'', type = Debit\<rparr>"

definition salaryDeposit :: Transaction where
  "salaryDeposit =
     \<lparr>txn_id = ''2'', date = ''2024-01-14'', description = ''Salary Deposit'',
      amount = 2500, category = Some ''Income'', type = Credit\<rparr>"

definition gasStation :: Transaction where
  "gasStation =
     \<lparr>txn_id = ''3'', date = ''2024-01-13'', description = ''Gas Station'',
      amount = - (181 / 4), category = Some ''Transportation'', type = Debit\<rparr>"

definition coffeeShop :: Transaction where
  "coffeeShop =
     \<lparr>txn_id = ''4'', date = ''2024-01-12'', description = ''Coffee Shop'',
      amount = - (23 / 4), category = Some ''Food'', type = Debit\<rparr>"

definition mockTransactions :: "Transaction list" where
  "mockTransactions = [groceryStore, salaryDeposit, gasStation, coffeeShop]"

text \<open>The sixty transactions of the pagination tests.\<close>

definition manyTransactions :: "Transaction list" where
  "manyTransactions =
     map (\<lambda>i. \<lparr>txn_id = showNat i, date = ''2024-01-'' @ padStart2 (showNat i),
                description = ''Transaction '' @ showNat i, amount = - (of_nat i * 10),
                category = Some ''Test'', type = Debit\<rparr>) [1..<61]"







definition misdatedRows :: "Transaction list" where
  "misdatedRows =
     map (\<lambda>i. \<lparr>txn_id = showNat i, date = ''2024-01-'' @ padStart2 (showNat i),
                description = ''Transaction '' @ showNat i, amount = - (of_nat i * 10),
                category = Some ''Test'', type = Debit\<rparr>) [2, 32, 1]"



text \<open>A row that carries no category.\<close>

definition cashRow :: Transaction where
  "cashRow =
     \<lparr>txn_id = ''7'', date = ''2024-02-01'', description = ''Gas Station'',
      amount = - 20, category = None, type = Debit\<rparr>"

text \<open>An error response of the backend, and two files a user may pick.\<close>

definition invalidFormat :: Response where
  "invalidFormat =
     \<lparr>status = 400, statusText = ''Bad Request'', contentType = Some ''application/json'',
      jsonBody = Some (JObj [(''detail'', JStr ''Invalid file format'')]),
      textBody = ''{\"detail\":\"Invalid file format\"}''\<rparr>"

definition pdfFile :: File where
  "pdfFile = \<lparr>file_name = ''statement.pdf'', file_type = ''application/pdf''\<rparr>"

definition csvFile :: File where
  "csvFile = \<lparr>file_name = ''Export.CSV'', file_type = []\<rparr>"

definition typedCsvFile :: File where
  "typedCsvFile = \<lparr>file_name = ''january'', file_type = ''text/csv''\<rparr>"

text \<open>
  A runtime for the scenarios: one whose local time zone is UTC, reading dates written
  \<open>YYYY-MM-DD\<close> (the day count is the civil-calendar one, the time value is in
  milliseconds), writing numbers in decimal notation with at most 17 fractional digits,
  and labelling a month as in \<open>Jan 2024\<close>.
\<close>

definition isDigit :: "char \<Rightarrow> bool" where
  "isDigit c = (CHR ''0'' \<le> c \<and> c \<le> CHR ''9'')"

definition readNat :: "string \<Rightarrow> nat" where
  "readNat s = foldl (\<lambda>n c. 10 * n + (of_char c - 48)) 0 s"

definition daysFromCivil :: "int \<Rightarrow> int \<Rightarrow> int \<Rightarrow> int" where
  "daysFromCivil y m d =
     (let y' = (if m \<le> 2 then y - 1 else y);
          era = y' div 400;
          yoe = y' - era * 400;
          mp = (if 2 < m then m - 3 else m + 9);
          doy = (153 * mp + 2) div 5 + d - 1;
          doe = yoe * 365 + yoe div 4 - yoe div 100 + doy
      in era * 146097 + doe - 719468)"

definition utcDate :: "string \<Rightarrow> jsdate" where
  "utcDate s =
     (if length s = 10 \<and> s ! 4 = CHR ''-'' \<and> s ! 7 = CHR ''-''
         \<and> list_all isDigit (take 4 s @ take 2 (drop 5 s) @ drop 8 s)
      then (let y = readNat (take 4 s); m = readNat (take 2 (drop 5 s)); d = readNat (drop 8 s)
            in if 1 \<le> m \<and> m \<le> 12 \<and> 1 \<le> d \<and> d \<le> 31
               then ValidDate (daysFromCivil (int y) (int m) (int d) * 86400000) (int y) (m - 1)
               else InvalidDate)
      else InvalidDate)"

fun fractionDigits :: "nat \<Rightarrow> rat \<Rightarrow> string" where
  "fractionDigits 0 f = []"
| "fractionDigits (Suc n) f =
     (if f = 0 then []
      else digitChar (nat \<lfloor>f * 10\<rfloor>) # fractionDigits n (f * 10 - of_int \<lfloor>f * 10\<rfloor>))"

definition showDecimal :: "rat \<Rightarrow> string" where
  "showDecimal r =
     (let a = \<bar>r\<bar>; whole = \<lfloor>a\<rfloor>; f = a - of_int whole
      in (if r < 0 then ''-'' else []) @ showNat (nat whole)
         @ (if f = 0 then [] else CHR ''.'' # fractionDigits 17 f))"

definition monthLabel :: "string \<Rightarrow> string" where
  "monthLabel s =
     ([''Jan'', ''Feb'', ''Mar'', ''Apr'', ''May'', ''Jun'', ''Jul'', ''Aug'', ''Sep'', ''Oct'',
       ''Nov'', ''Dec''] ! ((readNat (take 2 (drop 5 s)) - 1) mod 12)) @ '' '' @ take 4 s"

definition utcRuntime :: runtime where
  "utcRuntime = \<lparr>newDate = utcDate, numberToString = showDecimal, toLocaleMonth = monthLabel\<rparr>"

text \<open>
  The same runtime in a time zone a given number of minutes east of UTC. A date written
  \<open>YYYY-MM-DD\<close> is read as midnight UTC of that day, and the getters give the year and
  month of that instant in local time, the civil date of the local day count.
\<close>

definition civilFromDays :: "int \<Rightarrow> int \<times> nat" where
  "civilFromDays days =
     (let z = days + 719468;
          era = z div 146097;
          doe = z - era * 146097;
          yoe = (doe - doe div 1460 + doe div 36524 - doe div 146096) div 365;
          doy = doe - (365 * yoe + yoe div 4 - yoe div 100);
          mp = (5 * doy + 2) div 153;
          m = (if mp < 10 then mp + 3 else mp - 9)
      in (if m \<le> 2 then yoe + era * 400 + 1 else yoe + era * 400, nat (m - 1)))"

definition zoneDate :: "int \<Rightarrow> string \<Rightarrow> jsdate" where
  "zoneDate offset s =
     (case utcDate s of
        InvalidDate \<Rightarrow> InvalidDate
      | ValidDate ms y m \<Rightarrow>
          ValidDate ms (fst (civilFromDays ((ms + offset * 60000) div 86400000)))
            (snd (civilFromDays ((ms + offset * 60000) div 86400000))))"

definition zoneMonthLabel :: "int \<Rightarrow> string \<Rightarrow> string" where
  "zoneMonthLabel offset s =
     (case zoneDate offset s of
        InvalidDate \<Rightarrow> ''Invalid Date''
      | ValidDate ms y m \<Rightarrow>
          ([''Jan'', ''Feb'', ''Mar'', ''Apr'', ''May'', ''Jun'', ''Jul'', ''Aug'', ''Sep'', ''Oct'',
            ''Nov'', ''Dec''] ! (m mod 12)) @ '' '' @ showInt y)"

text \<open>A runtime five hours west of UTC.\<close>

definition westRuntime :: runtime where
  "westRuntime =
     \<lparr>newDate = zoneDate (- 300), numberToString = showDecimal,
      toLocaleMonth = zoneMonthLabel (- 300)\<rparr>"

section \<open>Invariants used in the proofs\<close>

text \<open>The held file and every file posted so far passed the validation.\<close>

definition uploadInv :: "UploadState \<Rightarrow> bool" where
  "uploadInv st =
     ((\<forall>f. curFile st = Some f \<longrightarrow> isCsv f) \<and> (\<forall>f \<in> set (requests st). isCsv f))"

section \<open>Orders used in the statements\<close>

text \<open>
  The order "at most" on the values a sort compares: numbers by size, strings by
  character code; a number and a string, and \<open>NaN\<close> and anything, are unrelated.
\<close>

fun keyLeq :: "sortval \<Rightarrow> sortval \<Rightarrow> bool" where
  "keyLeq (VNum a) (VNum b) = (a \<le> b)"
| "keyLeq (VStr a) (VStr b) = (a \<le> b)"
| "keyLeq a b = False"




text \<open>Two compared values are of the same kind: both numbers, or both strings.\<close>

definition sameKind :: "sortval \<Rightarrow> sortval \<Rightarrow> bool" where
  "sameKind a b = ((\<exists>x y. a = VNum x \<and> b = VNum y) \<or> (\<exists>x y. a = VStr x \<and> b = VStr y))"

section \<open>Quantities used in the statements\<close>

text \<open>
  The entry a category has in the map while it is built (zero amount and count before
  its first transaction), and, for a list of transactions, the absolute amounts and the
  number of those that carry a given label.
\<close>

definition entryOf :: "(string \<times> rat \<times> nat) list \<Rightarrow> string \<Rightarrow> rat \<times> nat" where
  "entryOf m k = (case mapGet m k of None \<Rightarrow> (0, 0) | Some e \<Rightarrow> e)"




text \<open>
  For the timeline: the amount a month key has in the map while it is built, the net
  amount of the transactions of a month key, and the property of a key that all its
  characters come after the comma in character code.
\<close>

definition amountOf :: "(string \<times> rat) list \<Rightarrow> string \<Rightarrow> rat" where
  "amountOf m k = (case mapGet m k of None \<Rightarrow> 0 | Some v \<Rightarrow> v)"

definition netIn :: "runtime \<Rightarrow> string \<Rightarrow> Transaction list \<Rightarrow> rat" where
  "netIn rt k ts = (\<Sum>t\<leftarrow>filter (\<lambda>t. monthKey rt t = k) ts. amount t)"

definition aboveComma :: "string \<Rightarrow> bool" where
  "aboveComma k = (\<forall>c \<in> set k. CHR '','' < c)"

section \<open>Strings and sorting: basic facts\<close>

lemma startsWith_iff: "startsWith s t \<longleftrightarrow> (\<exists>q. s = t @ q)"
  by (induction s t rule: startsWith.induct) auto

lemma includesStr_iff: "includesStr s t \<longleftrightarrow> (\<exists>p q. s = p @ t @ q)"
proof (induction s)
  case Nil
  show ?case by auto
next
  case (Cons d ds)
  show ?case
  proof
    assume "includesStr (d # ds) t"
    then consider "startsWith (d # ds) t" | "includesStr ds t" by auto
    then show "\<exists>p q. d # ds = p @ t @ q"
    proof cases
      case 1
      then obtain q where "d # ds = t @ q" by (auto simp: startsWith_iff)
      then have "d # ds = [] @ t @ q" by simp
      then show ?thesis by blast
    next
      case 2
      then obtain p q where "ds = p @ t @ q" using Cons.IH by auto
      then have "d # ds = (d # p) @ t @ q" by simp
      then show ?thesis by blast
    qed
  next
    assume "\<exists>p q. d # ds = p @ t @ q"
    then obtain p q where pq: "d # ds = p @ t @ q" by auto
    show "includesStr (d # ds) t"
    proof (cases p)
      case Nil
      then have "startsWith (d # ds) t" using pq by (auto simp: startsWith_iff)
      then show ?thesis by simp
    next
      case (Cons e p')
      then have "ds = p' @ t @ q" using pq by simp
      then have "includesStr ds t" using Cons.IH by auto
      then show ?thesis by simp
    qed
  qed
qed

lemma endsWith_iff: "endsWith s t \<longleftrightarrow> (\<exists>p. s = p @ t)"
proof -
  have "endsWith s t \<longleftrightarrow> (\<exists>q. rev s = rev t @ q)" by (simp add: endsWith_def startsWith_iff)
  also have "\<dots> \<longleftrightarrow> (\<exists>p. s = p @ t)"
  proof
    assume "\<exists>q. rev s = rev t @ q"
    then obtain q where "rev s = rev t @ q" by auto
    then have "s = rev q @ t" by (metis rev_append rev_rev_ident)
    then show "\<exists>p. s = p @ t" by blast
  next
    assume "\<exists>p. s = p @ t"
    then obtain p where "s = p @ t" by auto
    then have "rev s = rev t @ rev p" by simp
    then show "\<exists>q. rev s = rev t @ q" by blast
  qed
  finally show ?thesis .
qed

lemma mset_sortInsert: "mset (sortInsert cmp x ys) = add_mset x (mset ys)"
  by (induction ys) auto

lemma mset_arraySort: "mset (arraySort cmp xs) = mset xs"
  unfolding arraySort_def by (induction xs) (auto simp: mset_sortInsert)

lemma set_arraySort: "set (arraySort cmp xs) = set xs"
  by (metis mset_arraySort set_mset_mset)

lemma length_arraySort: "length (arraySort cmp xs) = length xs"
  by (metis mset_arraySort size_mset)

lemma set_sortInsert: "set (sortInsert cmp x ys) = insert x (set ys)"
  by (induction ys) auto

lemma sorted_sortInsert:
  assumes tr: "\<And>a b c. a \<in> A \<Longrightarrow> b \<in> A \<Longrightarrow> c \<in> A \<Longrightarrow> cmp a b \<le> 0 \<Longrightarrow> cmp b c \<le> 0 \<Longrightarrow> cmp a c \<le> 0"
    and tot: "\<And>a b. a \<in> A \<Longrightarrow> b \<in> A \<Longrightarrow> 0 < cmp a b \<Longrightarrow> cmp b a \<le> 0"
    and "x \<in> A" "set ys \<subseteq> A"
    and "sorted_wrt (\<lambda>a b. cmp a b \<le> 0) ys"
  shows "sorted_wrt (\<lambda>a b. cmp a b \<le> 0) (sortInsert cmp x ys)"
  using assms(3-)
proof (induction ys)
  case Nil
  show ?case by simp
next
  case (Cons y ys)
  show ?case
  proof (cases "0 < cmp x y")
    case True
    then have yx: "cmp y x \<le> 0" using tot Cons.prems by simp
    have "sorted_wrt (\<lambda>a b. cmp a b \<le> 0) (sortInsert cmp x ys)"
      using Cons by simp
    moreover have "\<forall>z \<in> set (sortInsert cmp x ys). cmp y z \<le> 0"
      using Cons.prems yx by (auto simp: set_sortInsert)
    ultimately show ?thesis using True by simp
  next
    case False
    then have xy: "cmp x y \<le> 0" by simp
    have "\<forall>z \<in> set ys. cmp x z \<le> 0"
    proof
      fix z assume z: "z \<in> set ys"
      then have "cmp y z \<le> 0" using Cons.prems by simp
      then show "cmp x z \<le> 0" using tr [of x y z] xy z Cons.prems by auto
    qed
    then show ?thesis using False xy Cons.prems by simp
  qed
qed

lemma sorted_arraySort:
  assumes tr: "\<And>a b c. a \<in> set xs \<Longrightarrow> b \<in> set xs \<Longrightarrow> c \<in> set xs \<Longrightarrow> cmp a b \<le> 0 \<Longrightarrow> cmp b c \<le> 0 \<Longrightarrow> cmp a c \<le> 0"
    and tot: "\<And>a b. a \<in> set xs \<Longrightarrow> b \<in> set xs \<Longrightarrow> 0 < cmp a b \<Longrightarrow> cmp b a \<le> 0"
  shows "sorted_wrt (\<lambda>a b. cmp a b \<le> 0) (arraySort cmp xs)"
proof -
  have "set zs \<subseteq> set xs \<Longrightarrow> sorted_wrt (\<lambda>a b. cmp a b \<le> 0) (arraySort cmp zs)" for zs
  proof (induction zs)
    case Nil
    show ?case by (simp add: arraySort_def)
  next
    case (Cons z zs)
    have "sorted_wrt (\<lambda>a b. cmp a b \<le> 0) (sortInsert cmp z (arraySort cmp zs))"
    proof (rule sorted_sortInsert [where A = "set xs"])
      show "z \<in> set xs" using Cons.prems by simp
      show "set (arraySort cmp zs) \<subseteq> set xs" using Cons.prems by (simp add: set_arraySort)
      show "sorted_wrt (\<lambda>a b. cmp a b \<le> 0) (arraySort cmp zs)" using Cons by simp
    qed (use tr tot in blast)+
    then show ?case by (simp add: arraySort_def)
  qed
  then show ?thesis by simp
qed



lemma set_distinctValues: "set (distinctValues xs) = set xs"
  by (induction xs rule: distinctValues.induct) auto

lemma set_categories:
  "set (categories ts) = {c. c \<noteq> [] \<and> (\<exists>t \<in> set ts. category t = Some c)}"
proof -
  have "set (categories ts) =
      (\<Union>t \<in> set ts. set (case category t of None \<Rightarrow> [] | Some c \<Rightarrow> if c = [] then [] else [c]))"
    by (simp add: categories_def set_arraySort set_distinctValues)
  also have "\<dots> = {c. c \<noteq> [] \<and> (\<exists>t \<in> set ts. category t = Some c)}"
  proof (intro set_eqI iffI)
    fix x
    assume "x \<in> (\<Union>t \<in> set ts. set (case category t of None \<Rightarrow> []
                                         | Some c \<Rightarrow> if c = [] then [] else [c]))"
    then obtain t where t: "t \<in> set ts"
      and x: "x \<in> set (case category t of None \<Rightarrow> [] | Some c \<Rightarrow> if c = [] then [] else [c])"
      by blast
    from x have "x \<noteq> [] \<and> category t = Some x"
      by (cases "category t") (auto split: if_splits)
    with t show "x \<in> {c. c \<noteq> [] \<and> (\<exists>t \<in> set ts. category t = Some c)}" by blast
  next
    fix x
    assume "x \<in> {c. c \<noteq> [] \<and> (\<exists>t \<in> set ts. category t = Some c)}"
    then obtain t where t: "t \<in> set ts" and c: "category t = Some x" and n: "x \<noteq> []" by blast
    then have "x \<in> set (case category t of None \<Rightarrow> [] | Some c \<Rightarrow> if c = [] then [] else [c])"
      by simp
    with t show "x \<in> (\<Union>t \<in> set ts. set (case category t of None \<Rightarrow> []
                                         | Some c \<Rightarrow> if c = [] then [] else [c]))"
      by blast
  qed
  finally show ?thesis .
qed

section \<open>Pagination\<close>

lemma totalPages_div: "totalPages rows = (int (length rows) + 49) div 50"
  unfolding totalPages_def itemsPerPage_def
  apply (simp add: ceiling_def)
  by linarith

lemma page_take_drop:
  assumes "1 \<le> p"
  shows "paginatedTransactions rows p = take 50 (drop (50 * nat (p - 1)) rows)"
proof -
  obtain q where q: "p = int q + 1" using assms by (metis add.commute zle_iff_zadd)
  have a: "sliceIndex (length rows) ((p - 1) * 50) = min (50 * q) (length rows)"
    by (simp add: sliceIndex_def q nat_mult_distrib)
  have b: "sliceIndex (length rows) (p * 50) = min (50 * q + 50) (length rows)"
    by (simp add: sliceIndex_def q nat_mult_distrib nat_add_distrib)
  have "paginatedTransactions rows p =
     take (min (50 * q + 50) (length rows) - min (50 * q) (length rows))
       (drop (min (50 * q) (length rows)) rows)"
    unfolding paginatedTransactions_def slice_def itemsPerPage_def Let_def using a b by simp
  also have "\<dots> = take 50 (drop (50 * q) rows)"
    by (cases "50 * q \<le> length rows") (auto simp: min_def)
  finally show ?thesis by (simp add: q)
qed

lemma chunks_concat:
  "concat (map (\<lambda>i. take n (drop (n * i) xs)) [0..<m]) = take (n * m) xs"
proof (induction m)
  case 0
  show ?case by simp
next
  case (Suc m)
  have "take (n * Suc m) xs = take (n * m + n) xs" by (simp add: add.commute)
  also have "\<dots> = take (n * m) xs @ take n (drop (n * m) xs)" by (rule take_add)
  finally show ?case using Suc.IH by simp
qed

lemma pages_concat:
  "concat (map (\<lambda>p. paginatedTransactions rows (int p)) [1..<Suc (nat (totalPages rows))]) = rows"
proof -
  let ?m = "nat (totalPages rows)"
  have "[1..<Suc ?m] = map Suc [0..<?m]"
    by (simp add: map_Suc_upt)
  then have "concat (map (\<lambda>p. paginatedTransactions rows (int p)) [1..<Suc ?m])
     = concat (map (\<lambda>i. take 50 (drop (50 * i) rows)) [0..<?m])"
    by (simp add: page_take_drop comp_def)
  also have "\<dots> = take (50 * ?m) rows" by (rule chunks_concat)
  also have "\<dots> = rows"
  proof -
    have "length rows \<le> 50 * ?m" unfolding totalPages_div by linarith
    then show ?thesis by simp
  qed
  finally show ?thesis .
qed

text \<open>
  C7. With N rows and pages of 50, the number of pages is the ceiling of N / 50 (the least
  number of pages of 50 that hold N rows). The pages 1 to \<open>totalPages\<close>, one after the
  other, are the rows themselves, so their sizes add up to N; every page before the last
  has exactly 50 rows, and the last page has the remaining rows, at least 1 and at most 50.
\<close>

theorem C7_pages_partition_rows:
  "totalPages rows = \<lceil>rat_of_nat (length rows) / 50\<rceil>
   \<and> int (length rows) \<le> 50 * totalPages rows
   \<and> 50 * totalPages rows < int (length rows) + 50
   \<and> concat (map (\<lambda>p. paginatedTransactions rows (int p)) [1..<Suc (nat (totalPages rows))]) = rows
   \<and> (\<Sum>p\<leftarrow>[1..<Suc (nat (totalPages rows))]. length (paginatedTransactions rows (int p)))
       = length rows
   \<and> (\<forall>p. 1 \<le> p \<and> p < totalPages rows \<longrightarrow> length (paginatedTransactions rows p) = 50)
   \<and> (0 < totalPages rows \<longrightarrow>
        length (paginatedTransactions rows (totalPages rows))
          = length rows - 50 * nat (totalPages rows - 1)
        \<and> 0 < length (paginatedTransactions rows (totalPages rows))
        \<and> length (paginatedTransactions rows (totalPages rows)) \<le> 50)"
proof -
  have c0: "totalPages rows = \<lceil>rat_of_nat (length rows) / 50\<rceil>"
    by (simp add: totalPages_def itemsPerPage_def)
  have c1: "int (length rows) \<le> 50 * totalPages rows"
    unfolding totalPages_div by linarith
  have c2: "50 * totalPages rows < int (length rows) + 50"
    unfolding totalPages_div by linarith
  have c3: "(\<Sum>p\<leftarrow>[1..<Suc (nat (totalPages rows))]. length (paginatedTransactions rows (int p)))
      = length rows"
  proof -
    have "length (concat (map (\<lambda>p. paginatedTransactions rows (int p))
            [1..<Suc (nat (totalPages rows))])) = length rows"
      by (simp only: pages_concat)
    then show ?thesis by (simp add: length_concat comp_def)
  qed
  have c4: "length (paginatedTransactions rows p) = 50" if "1 \<le> p \<and> p < totalPages rows" for p
  proof -
    have "50 * nat (p - 1) + 50 \<le> length rows" using that c2 by linarith
    then show ?thesis using that by (simp add: page_take_drop)
  qed
  have c5: "length (paginatedTransactions rows (totalPages rows))
          = length rows - 50 * nat (totalPages rows - 1)
        \<and> 0 < length (paginatedTransactions rows (totalPages rows))
        \<and> length (paginatedTransactions rows (totalPages rows)) \<le> 50"
    if "0 < totalPages rows"
  proof -
    have "50 * nat (totalPages rows - 1) < length rows" using that c2 by linarith
    moreover have "length rows \<le> 50 * nat (totalPages rows - 1) + 50" using that c1 by linarith
    ultimately show ?thesis using that by (simp add: page_take_drop)
  qed
  show ?thesis using c0 c1 c2 c3 c4 c5 pages_concat by blast
qed

theorem C7_pages_partition_rows_witness:
  "(1::int) \<le> 1 \<and> 1 < totalPages (replicate 60 CHR ''x'')
   \<and> 0 < totalPages (replicate 60 CHR ''x'')
   \<and> totalPages (replicate 60 CHR ''x'') = 2
   \<and> length (paginatedTransactions (replicate 60 CHR ''x'') 1) = 50
   \<and> length (paginatedTransactions (replicate 60 CHR ''x'') 2) = 10"
proof -
  have tp: "totalPages (replicate 60 CHR ''x'') = 2"
    by (simp add: totalPages_div)
  show ?thesis
    using C7_pages_partition_rows [of "replicate 60 CHR ''x''"] unfolding tp by simp
qed

section \<open>Filtering\<close>

text \<open>
  C3. A transaction is among the filtered (and sorted) rows exactly when it is in the list
  and all three hold: the search term is empty, or its lower-cased form occurs in the
  lower-cased description, or the transaction has a category whose lower-cased form
  contains it; the category filter is empty or is the transaction's category; the type
  filter is empty or is the transaction's type. Searching "grocery" matches the row
  "Grocery Store" and matches neither "Gas Station" row (category Transportation, or none).
\<close>

theorem C3_filter_conjunctive:
  "(t \<in> set (filteredAndSorted rt ts s c ty fld ord) \<longleftrightarrow>
      t \<in> set ts
      \<and> (s = []
         \<or> (\<exists>p q. toLowerCase (description t) = p @ toLowerCase s @ q)
         \<or> (\<exists>cat p q. category t = Some cat \<and> toLowerCase cat = p @ toLowerCase s @ q))
      \<and> (c = [] \<or> category t = Some c)
      \<and> (ty = [] \<or> typeString (type t) = ty))
   \<and> set (filteredAndSorted rt ts s c ty fld ord) = set (filtered ts s c ty)
   \<and> matchesSearch ''grocery'' groceryStore
   \<and> \<not> matchesSearch ''grocery'' gasStation
   \<and> \<not> matchesSearch ''grocery'' cashRow
   \<and> filtered mockTransactions ''grocery'' [] [] = [groceryStore]"
proof -
  have a: "set (filteredAndSorted rt ts s c ty fld ord) = set (filtered ts s c ty)"
    by (simp add: filteredAndSorted_def set_arraySort)
  have b: "t \<in> set (filtered ts s c ty) \<longleftrightarrow>
      t \<in> set ts
      \<and> (s = []
         \<or> (\<exists>p q. toLowerCase (description t) = p @ toLowerCase s @ q)
         \<or> (\<exists>cat p q. category t = Some cat \<and> toLowerCase cat = p @ toLowerCase s @ q))
      \<and> (c = [] \<or> category t = Some c)
      \<and> (ty = [] \<or> typeString (type t) = ty)"
    by (cases "category t")
       (auto simp: filtered_def matchesSearch_def matchesCategory_def matchesType_def
          includesStr_iff)
  have c1: "matchesSearch ''grocery'' groceryStore"
    by code_simp
  have c2: "\<not> matchesSearch ''grocery'' gasStation"
    by code_simp
  have c3: "\<not> matchesSearch ''grocery'' cashRow"
    by code_simp
  have c4: "filtered mockTransactions ''grocery'' [] [] = [groceryStore]"
    by code_simp
  show ?thesis using a b c1 c2 c3 c4 by blast
qed

theorem C3_filter_conjunctive_witness:
  "groceryStore \<in> set (filteredAndSorted utcRuntime mockTransactions [] ''Food'' ''debit'' SortDate Desc)"
proof -
  have "groceryStore \<in> set (filteredAndSorted utcRuntime mockTransactions [] ''Food'' ''debit'' SortDate Desc)
      \<longleftrightarrow> groceryStore \<in> set mockTransactions
      \<and> ([] = ([]::string)
         \<or> (\<exists>p q. toLowerCase (description groceryStore) = p @ toLowerCase [] @ q)
         \<or> (\<exists>cat p q. category groceryStore = Some cat \<and> toLowerCase cat = p @ toLowerCase [] @ q))
      \<and> (''Food'' = [] \<or> category groceryStore = Some ''Food'')
      \<and> (''debit'' = [] \<or> typeString (type groceryStore) = ''debit'')"
    using C3_filter_conjunctive [of groceryStore utcRuntime mockTransactions "[]" "''Food''" "''debit''"
        SortDate Desc]
    by blast
  then show ?thesis
    by (simp add: mockTransactions_def groceryStore_def)
qed

text \<open>
  C10. A transaction without a category passes the category filter only when the filter
  is empty: with any non-empty filter it is not among the rows, and in particular not with
  the filter "Uncategorized", the label its category cell shows. With the empty filter
  it is among the rows when it passes the other two tests. The select offers
  "Uncategorized" only if some transaction stores that category.
\<close>

theorem C10_absent_category_fails_filter:
  assumes "category t = None"
  shows "(matchesCategory c t \<longleftrightarrow> c = [])
     \<and> (c \<noteq> [] \<longrightarrow> t \<notin> set (filteredAndSorted rt ts s c ty fld ord))
     \<and> categoryCell t = ''Uncategorized''
     \<and> \<not> matchesCategory ''Uncategorized'' t
     \<and> (t \<in> set ts \<and> matchesSearch s t \<and> matchesType ty t
          \<longrightarrow> t \<in> set (filteredAndSorted rt ts s [] ty fld ord))
     \<and> ((\<forall>u \<in> set ts. category u \<noteq> Some ''Uncategorized'')
          \<longrightarrow> ''Uncategorized'' \<notin> set (categories ts))"
  using assms
  by (auto simp: matchesCategory_def categoryCell_def filteredAndSorted_def set_arraySort
        filtered_def set_categories)

theorem C10_absent_category_fails_filter_witness:
  "cashRow \<notin> set (filteredAndSorted utcRuntime [cashRow] [] ''Uncategorized'' [] SortDate Desc)
   \<and> cashRow \<in> set (filteredAndSorted utcRuntime [cashRow] [] [] [] SortDate Desc)
   \<and> ''Uncategorized'' \<notin> set (categories [cashRow])"
proof -
  have none: "category cashRow = None"
    by (simp add: cashRow_def)
  show ?thesis
    using C10_absent_category_fails_filter [OF none, of "''Uncategorized''" utcRuntime "[cashRow]" "[]" "[]"
        SortDate Desc]
      C10_absent_category_fails_filter [OF none, of "[]" utcRuntime "[cashRow]" "[]" "[]" SortDate Desc]
    by (simp add: matchesSearch_def matchesType_def none)
qed

section \<open>Upload validation\<close>

lemma isCsv_iff:
  "isCsv f \<longleftrightarrow> file_type f = ''text/csv'' \<or> (\<exists>p. toLowerCase (file_name f) = p @ ''.csv'')"
  by (simp add: isCsv_def endsWith_iff)

lemma find_isCsv_None: "(\<forall>f \<in> set files. \<not> isCsv f) \<Longrightarrow> find isCsv files = None"
  by (simp add: find_None_iff)

lemma find_isCsv_Some: "find isCsv files = Some f \<Longrightarrow> isCsv f \<and> f \<in> set files"
  by (metis find_Some_iff nth_mem)

lemma uploadInv_step: "uploadInv st \<Longrightarrow> uploadInv (uploadStep st ev)"
proof (cases ev)
  case (Drop files)
  assume "uploadInv st"
  then show ?thesis using Drop
    by (cases "find isCsv files") (auto simp: uploadInv_def handleDrop_def dest: find_isCsv_Some)
next
  case (FileSelect sel)
  assume "uploadInv st"
  then show ?thesis using FileSelect
    by (cases sel) (auto simp: uploadInv_def handleFileSelect_def)
next
  case ClickUpload
  assume "uploadInv st"
  then show ?thesis using ClickUpload
    by (cases "curFile st") (auto simp: uploadInv_def handleUpload_def)
next
  case (Settled outcome)
  assume "uploadInv st"
  then show ?thesis using Settled
    by (cases outcome) (auto simp: uploadInv_def)
qed (auto simp: uploadInv_def removeFile_def)

lemma uploadInv_foldl: "uploadInv st \<Longrightarrow> uploadInv (foldl uploadStep st evs)"
  by (induction evs arbitrary: st) (auto simp: uploadInv_step)

lemma uploadInv_run: "uploadInv (uploadRun evs)"
  unfolding uploadRun_def by (rule uploadInv_foldl) (simp add: uploadInv_def initialUpload_def)

lemma find_first:
  "(\<forall>g \<in> set pre. \<not> P g) \<Longrightarrow> P f \<Longrightarrow> find P (pre @ f # post) = Some f"
  by (induction pre) simp_all

lemma find_decompose:
  "find P files = Some f \<Longrightarrow> \<exists>pre post. files = pre @ f # post \<and> (\<forall>g \<in> set pre. \<not> P g) \<and> P f"
proof (induction files)
  case Nil
  then show ?case by simp
next
  case (Cons g files)
  show ?case
  proof (cases "P g")
    case True
    then have "g # files = [] @ f # files \<and> (\<forall>h \<in> set []. \<not> P h) \<and> P f"
      using Cons.prems by simp
    then show ?thesis by blast
  next
    case False
    then have "find P files = Some f" using Cons.prems by simp
    then obtain pre post where "files = pre @ f # post" "\<forall>h \<in> set pre. \<not> P h" "P f"
      using Cons.IH by blast
    then have "g # files = (g # pre) @ f # post \<and> (\<forall>h \<in> set (g # pre). \<not> P h) \<and> P f"
      using False by simp
    then show ?thesis by blast
  qed
qed

text \<open>
  C9 (amended). A file passes the validation exactly when its type is "text/csv" or its
  lower-cased name ends with ".csv". A selected file that passes becomes the held file
  and clears the error; one that does not pass sets exactly the error text "Please
  upload a valid CSV file" and changes nothing else. A drop takes the first of its files
  that passes: that file becomes the held file and the error is cleared, whatever other
  files were dropped with it; a drop in which no file passes sets exactly that error
  text and leaves the held file as it was. Neither a selection nor a drop issues a
  request. An accepted file is the one the next click on the upload button posts, and
  whatever the user does, every file ever posted passed the validation.
\<close>

theorem C9_csv_validation:
  "(isCsv f \<longleftrightarrow> file_type f = ''text/csv'' \<or> (\<exists>p. toLowerCase (file_name f) = p @ ''.csv''))
   \<and> (isCsv f \<longrightarrow> handleFileSelect st (Some f) = st\<lparr>curFile := Some f, error := None\<rparr>)
   \<and> (\<not> isCsv f \<longrightarrow>
        handleFileSelect st (Some f) = st\<lparr>error := Some ''Please upload a valid CSV file''\<rparr>)
   \<and> ((\<forall>g \<in> set pre. \<not> isCsv g) \<and> isCsv f \<longrightarrow>
        handleDrop st (pre @ f # post) = st\<lparr>isDragOver := False, curFile := Some f, error := None\<rparr>)
   \<and> ((\<forall>g \<in> set files. \<not> isCsv g) \<longrightarrow>
        handleDrop st files
          = st\<lparr>isDragOver := False, error := Some ''Please upload a valid CSV file''\<rparr>)
   \<and> (curFile (handleDrop st files) = Some f \<and> curFile st \<noteq> Some f \<longrightarrow>
        isCsv f \<and> (\<exists>pre post. files = pre @ f # post \<and> (\<forall>g \<in> set pre. \<not> isCsv g)))
   \<and> requests (handleFileSelect st selected) = requests st
   \<and> requests (handleDrop st files) = requests st
   \<and> (isCsv f \<and> \<not> isUploading st \<longrightarrow>
        requests (uploadStep (handleFileSelect st (Some f)) ClickUpload) = requests st @ [f]
        \<and> requests (uploadStep (handleDrop st (pre @ f # post)) ClickUpload)
            = requests st @ [the (find isCsv (pre @ f # post))])
   \<and> (\<forall>g \<in> set (requests (uploadRun evs)). isCsv g)
   \<and> (\<not> isCsv f \<longrightarrow> f \<notin> set (requests (uploadRun evs)))"
proof -
  have p1: "isCsv f \<longleftrightarrow> file_type f = ''text/csv'' \<or> (\<exists>p. toLowerCase (file_name f) = p @ ''.csv'')"
    by (rule isCsv_iff)
  have p2: "isCsv f \<longrightarrow> handleFileSelect st (Some f) = st\<lparr>curFile := Some f, error := None\<rparr>"
    by (simp add: handleFileSelect_def)
  have p3: "\<not> isCsv f \<longrightarrow>
        handleFileSelect st (Some f) = st\<lparr>error := Some ''Please upload a valid CSV file''\<rparr>"
    by (simp add: handleFileSelect_def)
  have p4: "(\<forall>g \<in> set pre. \<not> isCsv g) \<and> isCsv f \<longrightarrow>
        handleDrop st (pre @ f # post) = st\<lparr>isDragOver := False, curFile := Some f, error := None\<rparr>"
  proof
    assume "(\<forall>g \<in> set pre. \<not> isCsv g) \<and> isCsv f"
    then have "find isCsv (pre @ f # post) = Some f" by (simp add: find_first)
    then show "handleDrop st (pre @ f # post)
        = st\<lparr>isDragOver := False, curFile := Some f, error := None\<rparr>"
      by (simp add: handleDrop_def)
  qed
  have p5: "(\<forall>g \<in> set files. \<not> isCsv g) \<longrightarrow>
        handleDrop st files
          = st\<lparr>isDragOver := False, error := Some ''Please upload a valid CSV file''\<rparr>"
  proof
    assume "\<forall>g \<in> set files. \<not> isCsv g"
    then have "find isCsv files = None" by (rule find_isCsv_None)
    then show "handleDrop st files
        = st\<lparr>isDragOver := False, error := Some ''Please upload a valid CSV file''\<rparr>"
      by (simp add: handleDrop_def)
  qed
  have p6: "curFile (handleDrop st files) = Some f \<and> curFile st \<noteq> Some f \<longrightarrow>
        isCsv f \<and> (\<exists>pre post. files = pre @ f # post \<and> (\<forall>g \<in> set pre. \<not> isCsv g))"
  proof
    assume a: "curFile (handleDrop st files) = Some f \<and> curFile st \<noteq> Some f"
    show "isCsv f \<and> (\<exists>pre post. files = pre @ f # post \<and> (\<forall>g \<in> set pre. \<not> isCsv g))"
    proof (cases "find isCsv files")
      case None
      then have "curFile (handleDrop st files) = curFile st" by (simp add: handleDrop_def)
      then show ?thesis using a by simp
    next
      case (Some g)
      then have "curFile (handleDrop st files) = Some g" by (simp add: handleDrop_def)
      then have "g = f" using a by simp
      then show ?thesis using find_decompose [of isCsv files f] Some by blast
    qed
  qed
  have p7: "requests (handleFileSelect st selected) = requests st"
    by (cases selected) (simp_all add: handleFileSelect_def)
  have p8: "requests (handleDrop st files) = requests st"
    by (cases "find isCsv files") (simp_all add: handleDrop_def)
  have p9: "isCsv f \<and> \<not> isUploading st \<longrightarrow>
        requests (uploadStep (handleFileSelect st (Some f)) ClickUpload) = requests st @ [f]
        \<and> requests (uploadStep (handleDrop st (pre @ f # post)) ClickUpload)
            = requests st @ [the (find isCsv (pre @ f # post))]"
  proof
    assume a: "isCsv f \<and> \<not> isUploading st"
    have s: "requests (uploadStep (handleFileSelect st (Some f)) ClickUpload) = requests st @ [f]"
      using a by (simp add: handleFileSelect_def handleUpload_def)
    have "find isCsv (pre @ f # post) \<noteq> None" using a by (auto simp: find_None_iff)
    then obtain g where g: "find isCsv (pre @ f # post) = Some g" by blast
    then have d: "requests (uploadStep (handleDrop st (pre @ f # post)) ClickUpload)
            = requests st @ [the (find isCsv (pre @ f # post))]"
      using a by (simp add: handleDrop_def handleUpload_def)
    show "requests (uploadStep (handleFileSelect st (Some f)) ClickUpload) = requests st @ [f]
        \<and> requests (uploadStep (handleDrop st (pre @ f # post)) ClickUpload)
            = requests st @ [the (find isCsv (pre @ f # post))]"
      using s d by simp
  qed
  have p10: "\<forall>g \<in> set (requests (uploadRun evs)). isCsv g"
    using uploadInv_run [of evs] by (simp add: uploadInv_def)
  have p11: "\<not> isCsv f \<longrightarrow> f \<notin> set (requests (uploadRun evs))"
    using p10 by blast
  show ?thesis
    apply (intro conjI)
    subgoal by (rule p1)
    subgoal by (rule p2)
    subgoal by (rule p3)
    subgoal by (rule p4)
    subgoal by (rule p5)
    subgoal by (rule p6)
    subgoal by (rule p7)
    subgoal by (rule p8)
    subgoal by (rule p9)
    subgoal by (rule p10)
    subgoal by (rule p11)
    done
qed

theorem C9_csv_validation_witness:
  "\<not> isCsv pdfFile
   \<and> isCsv csvFile
   \<and> handleFileSelect initialUpload (Some pdfFile)
       = initialUpload\<lparr>error := Some ''Please upload a valid CSV file''\<rparr>
   \<and> handleFileSelect initialUpload (Some csvFile)
       = initialUpload\<lparr>curFile := Some csvFile, error := None\<rparr>
   \<and> handleDrop initialUpload [pdfFile, pdfFile]
       = initialUpload\<lparr>isDragOver := False, error := Some ''Please upload a valid CSV file''\<rparr>
   \<and> handleDrop initialUpload ([pdfFile] @ csvFile # [typedCsvFile])
       = initialUpload\<lparr>isDragOver := False, curFile := Some csvFile, error := None\<rparr>
   \<and> pdfFile \<notin> set (requests (uploadRun
         [FileSelect (Some csvFile), FileSelect (Some pdfFile), ClickUpload]))
   \<and> requests (uploadRun [FileSelect (Some csvFile), FileSelect (Some pdfFile), ClickUpload])
       = [csvFile]"
proof -
  have pdf: "\<not> isCsv pdfFile" by code_simp
  have csv: "isCsv csvFile" by code_simp
  have run: "requests (uploadRun [FileSelect (Some csvFile), FileSelect (Some pdfFile), ClickUpload])
       = [csvFile]"
    by code_simp
  note t1 = C9_csv_validation [of pdfFile initialUpload "[]" "[]" "[pdfFile, pdfFile]" None
      "[FileSelect (Some csvFile), FileSelect (Some pdfFile), ClickUpload]"]
  note t2 = C9_csv_validation [of csvFile initialUpload "[pdfFile]" "[typedCsvFile]" "[]" None "[]"]
  have a: "handleFileSelect initialUpload (Some pdfFile)
       = initialUpload\<lparr>error := Some ''Please upload a valid CSV file''\<rparr>"
    using t1 pdf by blast
  have b: "handleFileSelect initialUpload (Some csvFile)
       = initialUpload\<lparr>curFile := Some csvFile, error := None\<rparr>"
    using t2 csv by blast
  have "\<forall>g \<in> set [pdfFile, pdfFile]. \<not> isCsv g" using pdf by simp
  then have c: "handleDrop initialUpload [pdfFile, pdfFile]
       = initialUpload\<lparr>isDragOver := False, error := Some ''Please upload a valid CSV file''\<rparr>"
    using t1 by blast
  have "(\<forall>g \<in> set [pdfFile]. \<not> isCsv g) \<and> isCsv csvFile" using pdf csv by simp
  then have d: "handleDrop initialUpload ([pdfFile] @ csvFile # [typedCsvFile])
       = initialUpload\<lparr>isDragOver := False, curFile := Some csvFile, error := None\<rparr>"
    using t2 by blast
  have e: "pdfFile \<notin> set (requests (uploadRun
         [FileSelect (Some csvFile), FileSelect (Some pdfFile), ClickUpload]))"
    using t1 pdf by blast
  show ?thesis
    apply (intro conjI)
    subgoal by (rule pdf)
    subgoal by (rule csv)
    subgoal by (rule a)
    subgoal by (rule b)
    subgoal by (rule c)
    subgoal by (rule d)
    subgoal by (rule e)
    subgoal by (rule run)
    done
qed

text \<open>
  Read for every dropped file, the statement fails: dropped together with a CSV file, a
  file that does not pass raises no error message, and of two CSV files dropped together
  only the first is accepted.
\<close>

theorem C9_mixed_drop_counterexample:
  "\<not> isCsv pdfFile
   \<and> error (handleDrop initialUpload [pdfFile, csvFile]) = None
   \<and> isCsv typedCsvFile
   \<and> curFile (handleDrop initialUpload [csvFile, typedCsvFile]) = Some csvFile
   \<and> curFile (handleDrop initialUpload [csvFile, typedCsvFile]) \<noteq> Some typedCsvFile"
  by code_simp

section \<open>API client\<close>

lemma indicatesJson_iff:
  "indicatesJson h \<longleftrightarrow> (\<exists>ct p q. h = Some ct \<and> ct = p @ ''application/json'' @ q)"
  by (cases h) (auto simp: indicatesJson_def includesStr_iff)

text \<open>
  C5. A response is ok exactly when its status is from 200 to 299. A response that is not
  ok always ends in an \<open>ApiError\<close> carrying the status; its message is the non-empty
  \<open>message\<close> string of the parsed body, else the non-empty \<open>detail\<close> string, else "HTTP"
  and the status; when the body does not parse it is the status text (or "HTTP" and the
  status when that is empty).
  An ok response is decoded as JSON exactly when its content-type header is present
  and contains "application/json", and is returned as text otherwise. The 400 response
  with body \<open>{detail: "Invalid file format"}\<close> gives the message "Invalid file format".
\<close>

theorem C5_handleResponse:
  "(ok r \<longleftrightarrow> 200 \<le> status r \<and> status r \<le> 299)
   \<and> (\<not> ok r \<longrightarrow> (\<exists>msg. handleResponse r = Inl (ApiError (status r) msg)))
   \<and> (\<not> ok r \<and> jsonBody r = Some (JObj kvs) \<and> mapGet kvs ''message'' = Some (JStr m) \<and> m \<noteq> []
        \<longrightarrow> handleResponse r = Inl (ApiError (status r) (Defined (JStr m))))
   \<and> (\<not> ok r \<and> jsonBody r = Some (JObj kvs)
        \<and> (mapGet kvs ''message'' = None \<or> mapGet kvs ''message'' = Some JNull
             \<or> mapGet kvs ''message'' = Some (JStr []))
        \<and> mapGet kvs ''detail'' = Some (JStr d) \<and> d \<noteq> []
        \<longrightarrow> handleResponse r = Inl (ApiError (status r) (Defined (JStr d))))
   \<and> (\<not> ok r \<and> jsonBody r = Some (JObj kvs)
        \<and> mapGet kvs ''message'' = None \<and> mapGet kvs ''detail'' = None
        \<longrightarrow> handleResponse r
              = Inl (ApiError (status r) (Defined (JStr (''HTTP '' @ showNat (status r))))))
   \<and> (\<not> ok r \<and> jsonBody r = None
        \<longrightarrow> handleResponse r =
              Inl (ApiError (status r)
                (Defined (JStr (if statusText r \<noteq> [] then statusText r
                                else ''HTTP '' @ showNat (status r))))))
   \<and> (ok r \<and> (\<exists>ct p q. contentType r = Some ct \<and> ct = p @ ''application/json'' @ q)
        \<longrightarrow> handleResponse r =
              (case jsonBody r of None \<Rightarrow> Inl JsonRejected | Some j \<Rightarrow> Inr (JsonValue j)))
   \<and> (ok r \<and> \<not> (\<exists>ct p q. contentType r = Some ct \<and> ct = p @ ''application/json'' @ q)
        \<longrightarrow> handleResponse r = Inr (TextValue (textBody r)))
   \<and> handleResponse invalidFormat = Inl (ApiError 400 (Defined (JStr ''Invalid file format'')))"
proof -
  have a: "\<not> ok r \<Longrightarrow> handleResponse r = Inl (ApiError (status r) (errorMessage r))"
    by (simp add: handleResponse_def)
  have b: "errorMessage r = Defined (JStr m)"
    if "jsonBody r = Some (JObj kvs)" "mapGet kvs ''message'' = Some (JStr m)" "m \<noteq> []"
    using that by (simp add: errorMessage_def)
  have c: "errorMessage r = Defined (JStr d)"
    if "jsonBody r = Some (JObj kvs)"
       "mapGet kvs ''message'' = None \<or> mapGet kvs ''message'' = Some JNull
          \<or> mapGet kvs ''message'' = Some (JStr [])"
       "mapGet kvs ''detail'' = Some (JStr d)" "d \<noteq> []"
    using that by (auto simp: errorMessage_def)
  have c': "errorMessage r = Defined (JStr (''HTTP '' @ showNat (status r)))"
    if "jsonBody r = Some (JObj kvs)" "mapGet kvs ''message'' = None"
       "mapGet kvs ''detail'' = None"
    using that by (simp add: errorMessage_def statusFallback_def)
  have d: "errorMessage r = Defined (JStr (if statusText r \<noteq> [] then statusText r
                                else ''HTTP '' @ showNat (status r)))"
    if "jsonBody r = None"
    using that by (simp add: errorMessage_def statusFallback_def)
  have e: "handleResponse r =
              (case jsonBody r of None \<Rightarrow> Inl JsonRejected | Some j \<Rightarrow> Inr (JsonValue j))"
    if "ok r" "indicatesJson (contentType r)"
    using that by (simp add: handleResponse_def)
  have f: "handleResponse r = Inr (TextValue (textBody r))"
    if "ok r" "\<not> indicatesJson (contentType r)"
    using that by (simp add: handleResponse_def)
  have g: "handleResponse invalidFormat = Inl (ApiError 400 (Defined (JStr ''Invalid file format'')))"
    by code_simp
  show ?thesis
    unfolding indicatesJson_iff [symmetric]
    using a b c c' d e f g by (simp add: ok_def)
qed

theorem C5_handleResponse_witness:
  "\<not> ok invalidFormat
   \<and> handleResponse invalidFormat = Inl (ApiError 400 (Defined (JStr ''Invalid file format'')))
   \<and> handleResponse (invalidFormat\<lparr>jsonBody := None\<rparr>)
       = Inl (ApiError 400 (Defined (JStr ''Bad Request'')))
   \<and> handleResponse (invalidFormat\<lparr>status := 200\<rparr>)
       = Inr (JsonValue (JObj [(''detail'', JStr ''Invalid file format'')]))
   \<and> handleResponse (invalidFormat\<lparr>status := 200, contentType := Some ''text/plain''\<rparr>)
       = Inr (TextValue ''{\"detail\":\"Invalid file format\"}'')"
proof -
  let ?r1 = "invalidFormat\<lparr>jsonBody := None\<rparr>"
  let ?r2 = "invalidFormat\<lparr>status := 200\<rparr>"
  let ?r3 = "invalidFormat\<lparr>status := 200, contentType := Some ''text/plain''\<rparr>"
  have a: "\<not> ok invalidFormat" by (simp add: ok_def invalidFormat_def)
  have a1: "handleResponse invalidFormat
      = Inl (ApiError 400 (Defined (JStr ''Invalid file format'')))"
    using C5_handleResponse [of invalidFormat] by blast
  have b: "\<not> ok ?r1 \<and> jsonBody ?r1 = None"
    by (simp add: ok_def invalidFormat_def)
  have b0: "statusText ?r1 = ''Bad Request'' \<and> status ?r1 = 400"
    by (simp add: invalidFormat_def)
  have "handleResponse ?r1 =
      Inl (ApiError (status ?r1)
        (Defined (JStr (if statusText ?r1 \<noteq> [] then statusText ?r1
                        else ''HTTP '' @ showNat (status ?r1)))))"
    using C5_handleResponse [of ?r1] b by blast
  then have b1: "handleResponse ?r1 = Inl (ApiError 400 (Defined (JStr ''Bad Request'')))"
    by (simp only: b0) simp
  have c0: "contentType ?r2 = Some ''application/json''
      \<and> ''application/json'' = [] @ ''application/json'' @ []"
    by (simp add: invalidFormat_def)
  have c: "ok ?r2 \<and> (\<exists>ct p q. contentType ?r2 = Some ct \<and> ct = p @ ''application/json'' @ q)"
    using c0 by (simp only: ok_def) (simp add: invalidFormat_def, blast)
  have c2: "jsonBody ?r2 = Some (JObj [(''detail'', JStr ''Invalid file format'')])"
    by (simp add: invalidFormat_def)
  have "handleResponse ?r2 =
      (case jsonBody ?r2 of None \<Rightarrow> Inl JsonRejected | Some j \<Rightarrow> Inr (JsonValue j))"
    using C5_handleResponse [of ?r2] c by blast
  then have c1: "handleResponse ?r2
      = Inr (JsonValue (JObj [(''detail'', JStr ''Invalid file format'')]))"
    by (simp only: c2 option.case)
  have d0: "\<not> indicatesJson (Some ''text/plain'')" by code_simp
  have d2: "contentType ?r3 = Some ''text/plain''
      \<and> textBody ?r3 = ''{\"detail\":\"Invalid file format\"}''"
    by (simp add: invalidFormat_def)
  have d3: "ok ?r3" by (simp add: ok_def invalidFormat_def)
  have d: "\<not> (\<exists>ct p q. contentType ?r3 = Some ct \<and> ct = p @ ''application/json'' @ q)"
    using d0 d2 unfolding indicatesJson_iff by metis
  have "handleResponse ?r3 = Inr (TextValue (textBody ?r3))"
    using C5_handleResponse [of ?r3] d d3 by blast
  then have d1: "handleResponse ?r3 = Inr (TextValue ''{\"detail\":\"Invalid file format\"}'')"
    using d2 by simp
  show ?thesis using a a1 b1 c1 d1 by blast
qed

section \<open>Sorting the rows\<close>

lemma keyLeq_iff: "sameKind a b \<Longrightarrow> keyLeq a b \<longleftrightarrow> \<not> jsLess b a"
  by (auto simp: sameKind_def)





















lemma misdatedRows_of_tests:
  "misdatedRows = [manyTransactions ! 1, manyTransactions ! 31, manyTransactions ! 0]"
  by code_simp


section \<open>The page after a change of filter\<close>

lemma length_tableRows:
  "length (tableRows rt ts st) = length (filtered ts (searchTerm st) (categoryFilter st) (typeFilter st))"
  by (simp add: tableRows_def filteredAndSorted_def length_arraySort)

lemma many_all: "length (filtered manyTransactions [] [] []) = 60"
  by code_simp

lemma many_found: "length (filtered manyTransactions ''Transaction 1'' [] []) = 11"
  by code_simp

text \<open>
  C8. The pager buttons keep the page between 1 and the number of pages, but a change of
  filter leaves the page as it is. With the sixty test transactions, "Next" leads to
  page 2 of 2; searching "Transaction 1" then leaves eleven rows on one page while the
  page is still 2, and the table shows no row at all, not the eleven rows of page 1.
\<close>

theorem C8_stale_page_shows_no_rows:
  "currentPage (tableRun rt manyTransactions [ClickNext]) = 2
   \<and> totalPages (tableRows rt manyTransactions (tableRun rt manyTransactions [ClickNext])) = 2
   \<and> currentPage (tableRun rt manyTransactions [ClickNext, SetSearchTerm ''Transaction 1'']) = 2
   \<and> totalPages (tableRows rt manyTransactions
         (tableRun rt manyTransactions [ClickNext, SetSearchTerm ''Transaction 1''])) = 1
   \<and> visibleRows rt manyTransactions
         (tableRun rt manyTransactions [ClickNext, SetSearchTerm ''Transaction 1'']) = []
   \<and> length (paginatedTransactions
         (tableRows rt manyTransactions
            (tableRun rt manyTransactions [ClickNext, SetSearchTerm ''Transaction 1''])) 1) = 11"
proof -
  let ?st1 = "initialTable\<lparr>currentPage := 2\<rparr>"
  let ?st2 = "initialTable\<lparr>currentPage := 2, searchTerm := ''Transaction 1''\<rparr>"
  have t0: "totalPages (tableRows rt manyTransactions initialTable) = 2"
    by (simp add: totalPages_div length_tableRows initialTable_def many_all)
  have r1: "tableRun rt manyTransactions [ClickNext] = ?st1"
    by (simp add: tableRun_def t0) (simp add: initialTable_def)
  have r2: "tableRun rt manyTransactions [ClickNext, SetSearchTerm ''Transaction 1''] = ?st2"
    using r1 by (simp add: tableRun_def)
  have t1: "totalPages (tableRows rt manyTransactions ?st1) = 2"
    by (simp add: totalPages_div length_tableRows initialTable_def many_all)
  have l2: "length (tableRows rt manyTransactions ?st2) = 11"
    by (simp add: length_tableRows initialTable_def many_found)
  have t2: "totalPages (tableRows rt manyTransactions ?st2) = 1"
    by (simp add: totalPages_div l2)
  have v2: "visibleRows rt manyTransactions ?st2 = []"
    using l2 by (simp add: visibleRows_def page_take_drop)
  have p1: "length (paginatedTransactions (tableRows rt manyTransactions ?st2) 1) = 11"
    using l2 by (simp add: page_take_drop)
  show ?thesis
    unfolding r1 r2
    apply (intro conjI)
    subgoal by simp
    subgoal by (rule t1)
    subgoal by simp
    subgoal by (rule t2)
    subgoal by (rule v2)
    subgoal by (rule p1)
    done
qed

section \<open>Category aggregation\<close>

lemma mapGet_mapSet: "mapGet (mapSet m k v) k' = (if k' = k then Some v else mapGet m k')"
  by (induction m) auto

lemma keys_mapSet: "fst ` set (mapSet m k v) = insert k (fst ` set m)"
proof (induction m)
  case Nil
  show ?case by simp
next
  case (Cons e m)
  show ?case
  proof (cases "fst e = k")
    case True
    then show ?thesis by (cases e) auto
  next
    case False
    then show ?thesis using Cons.IH by (cases e) auto
  qed
qed

lemma distinct_mapSet: "distinct (map fst m) \<Longrightarrow> distinct (map fst (mapSet m k v))"
  by (induction m) (auto simp: keys_mapSet)

lemma mapGet_None_iff: "mapGet m k = None \<longleftrightarrow> k \<notin> fst ` set m"
proof (induction m)
  case Nil
  show ?case by simp
next
  case (Cons e m)
  then show ?case by (cases e) (auto simp: image_iff)
qed

lemma mapGet_Some_iff: "distinct (map fst m) \<Longrightarrow> mapGet m k = Some v \<longleftrightarrow> (k, v) \<in> set m"
proof (induction m)
  case Nil
  show ?case by simp
next
  case (Cons e m)
  obtain k' v' where e: "e = (k', v')" by (cases e)
  have d: "distinct (map fst m)" and n: "k' \<notin> fst ` set m" using Cons.prems e by auto
  show ?case
  proof (cases "k' = k")
    case True
    then have "(k, v) \<notin> set m" using n by (auto simp: image_iff)
    then show ?thesis using True e by auto
  next
    case False
    then show ?thesis using Cons.IH [OF d] e by auto
  qed
qed














lemma sum_amounts_mapSet:
  "(\<Sum>e\<leftarrow>mapSet m k v. fst (snd e)) = (\<Sum>e\<leftarrow>m. fst (snd e)) - fst (entryOf m k) + fst v"
proof (induction m)
  case Nil
  show ?case by (simp add: entryOf_def)
next
  case (Cons e m)
  obtain k' v' where e: "e = (k', v')" by (cases e)
  show ?case
  proof (cases "k' = k")
    case True
    then show ?thesis using e by (simp add: entryOf_def)
  next
    case False
    then show ?thesis using e Cons.IH by (simp add: entryOf_def)
  qed
qed

lemma sum_amounts_fold:
  "(\<Sum>e\<leftarrow>foldl categoryStep m ts. fst (snd e))
     = (\<Sum>e\<leftarrow>m. fst (snd e)) + (\<Sum>t\<leftarrow>ts. \<bar>amount t\<bar>)"
proof (induction ts arbitrary: m)
  case Nil
  show ?case by simp
next
  case (Cons t ts)
  have "(\<Sum>e\<leftarrow>categoryStep m t. fst (snd e)) = (\<Sum>e\<leftarrow>m. fst (snd e)) + \<bar>amount t\<bar>"
    by (simp add: categoryStep_def Let_def sum_amounts_mapSet entryOf_def)
  then show ?case by (simp add: Cons.IH)
qed

lemma sum_amounts_categoryMap:
  "(\<Sum>e\<leftarrow>categoryMap ts. fst (snd e)) = (\<Sum>t\<leftarrow>filter (\<lambda>t. type t = Debit) ts. \<bar>amount t\<bar>)"
  by (simp add: categoryMap_def sum_amounts_fold)

lemma sum_list_perm:
  fixes f :: "'a \<Rightarrow> rat"
  assumes "mset xs = mset ys"
  shows "sum_list (map f xs) = sum_list (map f ys)"
proof -
  have "mset (map f xs) = mset (map f ys)" using assms by simp
  then have "sum_mset (mset (map f xs)) = sum_mset (mset (map f ys))" by (rule arg_cong)
  then show ?thesis by (simp only: sum_mset_sum_list)
qed





















section \<open>Timeline aggregation\<close>

lemma keys_monthlyStep: "fst ` set (monthlyStep rt m t) = insert (monthKey rt t) (fst ` set m)"
  by (simp add: monthlyStep_def Let_def keys_mapSet)

lemma distinct_monthlyStep: "distinct (map fst m) \<Longrightarrow> distinct (map fst (monthlyStep rt m t))"
  by (simp add: monthlyStep_def Let_def distinct_mapSet)

lemma amountOf_monthlyStep:
  "amountOf (monthlyStep rt m t) k
     = (if monthKey rt t = k then amountOf m k + amount t else amountOf m k)"
  by (simp add: amountOf_def monthlyStep_def Let_def mapGet_mapSet)

lemma keys_monthly_fold:
  "fst ` set (foldl (monthlyStep rt) m ts) = fst ` set m \<union> monthKey rt ` set ts"
  by (induction ts arbitrary: m) (auto simp: keys_monthlyStep)

lemma distinct_monthly_fold:
  "distinct (map fst m) \<Longrightarrow> distinct (map fst (foldl (monthlyStep rt) m ts))"
  by (induction ts arbitrary: m) (auto simp: distinct_monthlyStep)

lemma amountOf_monthly_fold:
  "amountOf (foldl (monthlyStep rt) m ts) k = amountOf m k + netIn rt k ts"
proof (induction ts arbitrary: m)
  case Nil
  show ?case by (simp add: netIn_def)
next
  case (Cons t ts)
  show ?case by (simp add: Cons.IH amountOf_monthlyStep netIn_def)
qed

lemma distinct_monthlyMap: "distinct (map fst (monthlyMap rt ts))"
  unfolding monthlyMap_def by (rule distinct_monthly_fold) simp

lemma keys_monthlyMap: "fst ` set (monthlyMap rt ts) = monthKey rt ` set ts"
  unfolding monthlyMap_def by (simp add: keys_monthly_fold)

lemma monthlyMap_entry:
  assumes "e \<in> set (monthlyMap rt ts)"
  shows "snd e = netIn rt (fst e) ts"
proof -
  obtain k v where e: "e = (k, v)" by (cases e)
  have "mapGet (monthlyMap rt ts) k = Some v"
    using assms e distinct_monthlyMap [of rt ts] by (simp add: mapGet_Some_iff)
  then have "amountOf (monthlyMap rt ts) k = v" by (simp add: amountOf_def)
  moreover have "amountOf (monthlyMap rt ts) k = netIn rt k ts"
    unfolding monthlyMap_def by (simp add: amountOf_monthly_fold) (simp add: amountOf_def)
  ultimately show ?thesis using e by simp
qed

lemma digitChar_above: "d < 10 \<Longrightarrow> CHR '','' < digitChar d"
  by (simp add: digitChar_def less_char_def)

lemma showNat_above: "aboveComma (showNat n)"
proof (induction n rule: showNat.induct)
  case (1 n)
  show ?case
  proof (cases "n < 10")
    case True
    then show ?thesis by (subst showNat.simps) (simp add: aboveComma_def digitChar_above)
  next
    case False
    then have "aboveComma (showNat (n div 10))" using 1 by simp
    moreover have "CHR '','' < digitChar (n mod 10)" by (rule digitChar_above) simp
    ultimately show ?thesis using False by (subst showNat.simps) (simp add: aboveComma_def)
  qed
qed

lemma showInt_above: "aboveComma (showInt i)"
  using showNat_above [of "nat i"] showNat_above [of "nat (- i)"]
  by (simp add: showInt_def aboveComma_def)

lemma padStart2_above: "aboveComma s \<Longrightarrow> aboveComma (padStart2 s)"
  by (auto simp: padStart2_def aboveComma_def)

lemma monthKey_above: "aboveComma (monthKey rt t)"
proof (cases "newDate rt (date t)")
  case InvalidDate
  then show ?thesis by (simp add: monthKey_def aboveComma_def)
next
  case (ValidDate ms y m)
  have "aboveComma (showInt y)" by (rule showInt_above)
  moreover have "aboveComma (padStart2 (showNat (m + 1)))"
    by (rule padStart2_above) (rule showNat_above)
  ultimately show ?thesis using ValidDate by (auto simp: monthKey_def aboveComma_def)
qed

lemma key_order:
  assumes "aboveComma k1" "aboveComma k2" "k1 \<noteq> k2"
    and "k1 @ CHR '','' # s1 \<le> k2 @ CHR '','' # s2"
  shows "k1 < k2"
  using assms
proof (induction k1 arbitrary: k2)
  case Nil
  then show ?case by (cases k2) simp_all
next
  case (Cons c k1)
  have c: "CHR '','' < c" using Cons.prems(1) by (simp add: aboveComma_def)
  show ?case
  proof (cases k2)
    case Nil
    then have "c # (k1 @ CHR '','' # s1) \<le> CHR '','' # s2" using Cons.prems(4) by simp
    then have "c \<le> CHR '',''" by (auto simp: Cons_le_Cons)
    then show ?thesis using c by simp
  next
    case (Cons d k2')
    have le: "c < d \<or> (c = d \<and> k1 @ CHR '','' # s1 \<le> k2' @ CHR '','' # s2)"
      using Cons.prems(4) Cons by (simp add: Cons_le_Cons)
    show ?thesis
    proof (cases "c < d")
      case True
      then show ?thesis using Cons by simp
    next
      case False
      then have cd: "c = d" and tl: "k1 @ CHR '','' # s1 \<le> k2' @ CHR '','' # s2"
        using le by simp_all
      have "k1 \<noteq> k2'" using Cons.prems(3) Cons cd by simp
      moreover have "aboveComma k1" "aboveComma k2'"
        using Cons.prems(1,2) Cons by (simp_all add: aboveComma_def)
      ultimately have "k1 < k2'" using Cons.IH tl by blast
      then show ?thesis using Cons cd by simp
    qed
  qed
qed


lemma sortedEntries_mset: "mset (sortedEntries rt ts) = mset (monthlyMap rt ts)"
  by (simp add: sortedEntries_def mset_arraySort)

lemma sortedEntries_set: "set (sortedEntries rt ts) = set (monthlyMap rt ts)"
  by (simp add: sortedEntries_def set_arraySort)

lemma sortedEntries_distinct: "distinct (map fst (sortedEntries rt ts))"
proof -
  have "mset (map fst (sortedEntries rt ts)) = mset (map fst (monthlyMap rt ts))"
    by (simp add: sortedEntries_mset)
  then show ?thesis using distinct_monthlyMap [of rt ts] by (metis mset_eq_imp_distinct_iff)
qed

lemma defaultCompare_le: "defaultCompare f a b \<le> 0 \<longleftrightarrow> f a \<le> f b"
  by (auto simp: defaultCompare_def)

lemma sortedEntries_by_string:
  "sorted_wrt (\<lambda>a b. entryString rt a \<le> entryString rt b) (sortedEntries rt ts)"
proof -
  have "sorted_wrt (\<lambda>a b. defaultCompare (entryString rt) a b \<le> 0) (sortedEntries rt ts)"
    unfolding sortedEntries_def
  proof (rule sorted_arraySort)
    fix a b c :: "string \<times> rat"
    assume "defaultCompare (entryString rt) a b \<le> 0" "defaultCompare (entryString rt) b c \<le> 0"
    then show "defaultCompare (entryString rt) a c \<le> 0"
      unfolding defaultCompare_le by (rule order_trans)
  next
    fix a b :: "string \<times> rat"
    assume "0 < defaultCompare (entryString rt) a b"
    then have "\<not> entryString rt a \<le> entryString rt b"
      using defaultCompare_le [of "entryString rt" a b] by simp
    then show "defaultCompare (entryString rt) b a \<le> 0"
      unfolding defaultCompare_le by simp
  qed
  then show ?thesis by (simp only: defaultCompare_le)
qed

lemma sortedEntries_by_key: "sorted_wrt (<) (map fst (sortedEntries rt ts))"
proof -
  let ?es = "sortedEntries rt ts"
  have "fst (?es ! i) < fst (?es ! j)" if ij: "i < j" "j < length ?es" for i j
  proof -
    have le: "entryString rt (?es ! i) \<le> entryString rt (?es ! j)"
      using sortedEntries_by_string [of rt ts] ij by (simp only: sorted_wrt_iff_nth_less)
    have mem: "?es ! i \<in> set (monthlyMap rt ts)" "?es ! j \<in> set (monthlyMap rt ts)"
      using ij by (simp_all add: sortedEntries_set [symmetric])
    then have "fst (?es ! i) \<in> monthKey rt ` set ts" "fst (?es ! j) \<in> monthKey rt ` set ts"
      using keys_monthlyMap [of rt ts] by (metis imageI)+
    then have ab: "aboveComma (fst (?es ! i))" "aboveComma (fst (?es ! j))"
      using monthKey_above by auto
    have "i < length (map fst ?es)" "j < length (map fst ?es)" "i \<noteq> j" using ij by simp_all
    then have "map fst ?es ! i \<noteq> map fst ?es ! j"
      using sortedEntries_distinct [of rt ts] nth_eq_iff_index_eq by blast
    then have ne: "fst (?es ! i) \<noteq> fst (?es ! j)" using ij by simp
    show ?thesis
      using key_order [OF ab ne] le by (simp add: entryString_def)
  qed
  then show ?thesis by (simp add: sorted_wrt_iff_nth_less)
qed

lemma cumulate_amounts: "map tl_amount (cumulate rt c es) = map snd es"
  by (induction es arbitrary: c) simp_all

lemma cumulate_dates:
  "map tl_date (cumulate rt c es) = map (\<lambda>e. toLocaleMonth rt (fst e @ ''-01'')) es"
  by (induction es arbitrary: c) simp_all

lemma cumulate_length: "length (cumulate rt c es) = length es"
  by (induction es arbitrary: c) simp_all

lemma cumulate_nth:
  "k < length es \<Longrightarrow> tl_cumulative (cumulate rt c es ! k) = c + sum_list (take (Suc k) (map snd es))"
proof (induction es arbitrary: c k)
  case Nil
  then show ?case by simp
next
  case (Cons e es)
  show ?case
  proof (cases k)
    case 0
    then show ?thesis by simp
  next
    case (Suc k')
    then have "k' < length es" using Cons.prems by simp
    then show ?thesis using Cons.IH [of k' "c + snd e"] Suc by simp
  qed
qed


lemma readNat_snoc: "readNat (s @ [c]) = 10 * readNat s + (of_char c - 48)"
  by (simp add: readNat_def)

lemma digitChar_value: "d < 10 \<Longrightarrow> of_char (digitChar d) - 48 = d"
  by (simp add: digitChar_def)

lemma readNat_showNat: "readNat (showNat n) = n"
proof (induction n rule: showNat.induct)
  case (1 n)
  show ?case
  proof (cases "n < 10")
    case True
    then show ?thesis by (subst showNat.simps) (simp add: readNat_def digitChar_value)
  next
    case False
    then have "readNat (showNat (n div 10)) = n div 10" using 1 by simp
    then show ?thesis
      using False by (subst showNat.simps) (simp add: readNat_snoc digitChar_value)
  qed
qed

lemma showNat_nonempty: "showNat n \<noteq> []"
  by (subst showNat.simps) simp

lemma digitChar_not_minus: "d < 10 \<Longrightarrow> digitChar d \<noteq> CHR ''-''"
proof
  assume d: "d < 10" and "digitChar d = CHR ''-''"
  then have "(of_char (digitChar d) :: nat) = of_char CHR ''-''" by simp
  moreover have "(of_char (digitChar d) :: nat) = 48 + d" using d by (simp add: digitChar_def)
  ultimately show False by simp
qed

lemma showNat_no_minus: "CHR ''-'' \<notin> set (showNat n)"
proof (induction n rule: showNat.induct)
  case (1 n)
  show ?case
  proof (cases "n < 10")
    case True
    then show ?thesis using digitChar_not_minus [of n] by (subst showNat.simps) auto
  next
    case False
    then have "CHR ''-'' \<notin> set (showNat (n div 10))" using 1 by simp
    moreover have "digitChar (n mod 10) \<noteq> CHR ''-''" by (rule digitChar_not_minus) simp
    ultimately show ?thesis using False by (subst showNat.simps) auto
  qed
qed

lemma showNat_inj: "showNat a = showNat b \<Longrightarrow> a = b"
  by (metis readNat_showNat)

lemma showInt_inj:
  assumes "showInt i = showInt j"
  shows "i = j"
proof -
  have neg: "showNat (nat a) \<noteq> CHR ''-'' # x" for a x
    using showNat_no_minus [of "nat a"] by (metis list.set_intros(1))
  show ?thesis
  proof (cases "i < 0"; cases "j < 0")
    assume "i < 0" "j < 0"
    then have "showNat (nat (- i)) = showNat (nat (- j))" using assms by (simp add: showInt_def)
    then have "nat (- i) = nat (- j)" by (rule showNat_inj)
    then show ?thesis using \<open>i < 0\<close> \<open>j < 0\<close> by simp
  next
    assume "i < 0" "\<not> j < 0"
    then have "showNat (nat j) = CHR ''-'' # showNat (nat (- i))"
      using assms by (simp add: showInt_def)
    then show ?thesis using neg by blast
  next
    assume "\<not> i < 0" "j < 0"
    then have "showNat (nat i) = CHR ''-'' # showNat (nat (- j))"
      using assms by (simp add: showInt_def)
    then show ?thesis using neg by blast
  next
    assume "\<not> i < 0" "\<not> j < 0"
    then have "showNat (nat i) = showNat (nat j)" using assms by (simp add: showInt_def)
    then have "nat i = nat j" by (rule showNat_inj)
    then show ?thesis using \<open>\<not> i < 0\<close> \<open>\<not> j < 0\<close> by simp
  qed
qed

lemma readNat_zeros: "readNat (replicate k CHR ''0'' @ s) = readNat s"
  by (induction k) (simp_all add: readNat_def)

lemma readNat_padStart2: "readNat (padStart2 s) = readNat s"
  by (simp add: padStart2_def readNat_zeros)

lemma length_month: "m < 12 \<Longrightarrow> length (padStart2 (showNat (m + 1))) = 2"
proof -
  assume m: "m < 12"
  have one: "length (showNat d) = 1" if "d < 10" for d
    using that by (subst showNat.simps) simp
  show ?thesis
  proof (cases "m + 1 < 10")
    case True
    then show ?thesis using one [of "m + 1"] by (simp add: padStart2_def)
  next
    case False
    then have "(m + 1) div 10 < 10" using m by simp
    then have "length (showNat ((m + 1) div 10)) = 1" by (rule one)
    then have "length (showNat (m + 1)) = 2"
      using False by (subst showNat.simps) simp
    then show ?thesis by (simp add: padStart2_def)
  qed
qed

lemma yearMonth_inj:
  assumes "m < 12" "m' < 12"
    and "showInt y @ ''-'' @ padStart2 (showNat (m + 1))
       = showInt y' @ ''-'' @ padStart2 (showNat (m' + 1))"
  shows "y = y' \<and> m = m'"
proof -
  have l: "length (''-'' @ padStart2 (showNat (m + 1)))
      = length (''-'' @ padStart2 (showNat (m' + 1)))"
    using length_month [OF assms(1)] length_month [OF assms(2)] by simp
  have "showInt y = showInt y'
      \<and> ''-'' @ padStart2 (showNat (m + 1)) = ''-'' @ padStart2 (showNat (m' + 1))"
    using assms(3) l
      append_eq_append_conv [of "showInt y" "showInt y'"
        "''-'' @ padStart2 (showNat (m + 1))" "''-'' @ padStart2 (showNat (m' + 1))"]
    by blast
  then have y: "showInt y = showInt y'"
    and p: "padStart2 (showNat (m + 1)) = padStart2 (showNat (m' + 1))"
    by simp_all
  have "readNat (padStart2 (showNat (m + 1))) = readNat (padStart2 (showNat (m' + 1)))"
    using p by simp
  then have "m + 1 = m' + 1" by (simp only: readNat_padStart2 readNat_showNat)
  then show ?thesis using showInt_inj [OF y] by simp
qed

text \<open>
  What holds of the timeline in every runtime. It has one point per entry of the sorted
  month map, with the entry's amount. The keys of the entries are exactly the month keys
  of the transactions (of all of them, debit and credit; no key without a transaction),
  each once, in strictly ascending order of the key strings. The amount of an entry is
  the signed sum of the amounts of the transactions with its key. The cumulative value of
  point k is the sum of the amounts of the points 0 to k. No transactions give no points.
  The month key of a transaction whose date the runtime reads is the year, a dash and the
  two-digit month number the getters of the runtime return for it, and two such
  transactions have the same key exactly when that year and month agree.
\<close>

lemma timeline_buckets:
  "map tl_amount (timelineData rt ts) = map snd (sortedEntries rt ts)
   \<and> map tl_date (timelineData rt ts)
       = map (\<lambda>e. toLocaleMonth rt (fst e @ ''-01'')) (sortedEntries rt ts)
   \<and> sorted_wrt (<) (map fst (sortedEntries rt ts))
   \<and> set (map fst (sortedEntries rt ts)) = monthKey rt ` set ts
   \<and> (\<forall>e \<in> set (sortedEntries rt ts).
         snd e = (\<Sum>t\<leftarrow>filter (\<lambda>t. monthKey rt t = fst e) ts. amount t))
   \<and> (\<forall>k < length (timelineData rt ts).
         tl_cumulative (timelineData rt ts ! k)
           = sum_list (take (Suc k) (map tl_amount (timelineData rt ts))))
   \<and> timelineData rt [] = []
   \<and> (\<forall>ms y m. newDate rt (date t) = ValidDate ms y m
         \<longrightarrow> monthKey rt t = showInt y @ ''-'' @ padStart2 (showNat (m + 1)))
   \<and> (\<forall>ms y m ms' y' m'.
         newDate rt (date t) = ValidDate ms y m \<and> newDate rt (date u) = ValidDate ms' y' m'
         \<and> m < 12 \<and> m' < 12
         \<longrightarrow> (monthKey rt t = monthKey rt u \<longleftrightarrow> y = y' \<and> m = m'))"
proof -
  have p1: "map tl_amount (timelineData rt ts) = map snd (sortedEntries rt ts)"
    by (simp add: timelineData_def cumulate_amounts)
  have p2: "map tl_date (timelineData rt ts)
       = map (\<lambda>e. toLocaleMonth rt (fst e @ ''-01'')) (sortedEntries rt ts)"
    by (simp add: timelineData_def cumulate_dates)
  have p3: "sorted_wrt (<) (map fst (sortedEntries rt ts))"
    by (rule sortedEntries_by_key)
  have p4: "set (map fst (sortedEntries rt ts)) = monthKey rt ` set ts"
    using keys_monthlyMap [of rt ts] by (simp add: sortedEntries_set)
  have p5: "\<forall>e \<in> set (sortedEntries rt ts).
         snd e = (\<Sum>t\<leftarrow>filter (\<lambda>t. monthKey rt t = fst e) ts. amount t)"
    using monthlyMap_entry [of _ rt ts] by (simp add: sortedEntries_set netIn_def)
  have p6: "\<forall>k < length (timelineData rt ts).
         tl_cumulative (timelineData rt ts ! k)
           = sum_list (take (Suc k) (map tl_amount (timelineData rt ts)))"
  proof (intro allI impI)
    fix k
    assume "k < length (timelineData rt ts)"
    then have k: "k < length (sortedEntries rt ts)"
      by (simp add: timelineData_def cumulate_length)
    have "tl_cumulative (timelineData rt ts ! k)
        = 0 + sum_list (take (Suc k) (map snd (sortedEntries rt ts)))"
      unfolding timelineData_def using k by (rule cumulate_nth)
    then show "tl_cumulative (timelineData rt ts ! k)
        = sum_list (take (Suc k) (map tl_amount (timelineData rt ts)))"
      by (simp add: p1)
  qed
  have p7: "timelineData rt [] = []"
    by (simp add: timelineData_def sortedEntries_def monthlyMap_def arraySort_def)
  have p8: "\<forall>ms y m. newDate rt (date t) = ValidDate ms y m
         \<longrightarrow> monthKey rt t = showInt y @ ''-'' @ padStart2 (showNat (m + 1))"
    by (simp add: monthKey_def)
  have p9: "\<forall>ms y m ms' y' m'.
         newDate rt (date t) = ValidDate ms y m \<and> newDate rt (date u) = ValidDate ms' y' m'
         \<and> m < 12 \<and> m' < 12
         \<longrightarrow> (monthKey rt t = monthKey rt u \<longleftrightarrow> y = y' \<and> m = m')"
  proof (intro allI impI)
    fix ms y m ms' y' m'
    assume a: "newDate rt (date t) = ValidDate ms y m \<and> newDate rt (date u) = ValidDate ms' y' m'
         \<and> m < 12 \<and> m' < 12"
    then have kt: "monthKey rt t = showInt y @ ''-'' @ padStart2 (showNat (m + 1))"
      and ku: "monthKey rt u = showInt y' @ ''-'' @ padStart2 (showNat (m' + 1))"
      by (simp_all add: monthKey_def)
    show "monthKey rt t = monthKey rt u \<longleftrightarrow> y = y' \<and> m = m'"
    proof
      assume "monthKey rt t = monthKey rt u"
      then have "showInt y @ ''-'' @ padStart2 (showNat (m + 1))
          = showInt y' @ ''-'' @ padStart2 (showNat (m' + 1))"
        by (simp only: kt ku)
      then show "y = y' \<and> m = m'" using a yearMonth_inj by blast
    next
      assume "y = y' \<and> m = m'"
      then show "monthKey rt t = monthKey rt u" by (simp only: kt ku)
    qed
  qed
  show ?thesis
    apply (intro conjI)
    subgoal by (rule p1)
    subgoal by (rule p2)
    subgoal by (rule p3)
    subgoal by (rule p4)
    subgoal by (rule p5)
    subgoal by (rule p6)
    subgoal by (rule p7)
    subgoal by (rule p8)
    subgoal by (rule p9)
    done
qed

lemma zoneDate_utc:
  "list_all (\<lambda>t. zoneDate 0 (date t) = utcDate (date t)) (mockTransactions @ [cashRow])"
  by code_simp

text \<open>
  C2. The month a transaction is counted in is the month of its date in the local time
  of the runtime, while a date written as year, month and day is read as midnight UTC.
  Five hours west of UTC the transaction dated 2024-02-01 gets the month key 2024-01, and
  the point of that key is labelled Dec 2023; together with a transaction dated
  2024-01-12 it forms one bucket, where the calendar months of the two dates give two.
  In a runtime on UTC the same two transactions give the buckets 2024-01 and 2024-02.
\<close>

theorem C2_west_of_utc_month_shift:
  "date cashRow = ''2024-02-01''
   \<and> newDate westRuntime (date cashRow) = ValidDate 1706745600000 2024 0
   \<and> monthKey westRuntime cashRow = ''2024-01''
   \<and> timelineData westRuntime [cashRow]
       = [\<lparr>tl_date = ''Dec 2023'', tl_amount = - 20, tl_cumulative = - 20\<rparr>]
   \<and> date coffeeShop = ''2024-01-12''
   \<and> sortedEntries westRuntime [coffeeShop, cashRow] = [(''2024-01'', - (103 / 4))]
   \<and> sortedEntries utcRuntime [coffeeShop, cashRow]
       = [(''2024-01'', - (23 / 4)), (''2024-02'', - 20)]"
  by code_simp

end
